theory Spec2Isabelle
  imports Complex_Main "HOL-Library.Word"
begin

section \<open>Data model\<close>

text \<open>
  The element type of a \<open>cv::Mat\<close>. The code only distinguishes the single-channel 8-bit
  type (its precondition) and the 32-bit signed type it converts the working copy to;
  every other OpenCV type code is \<open>CV_OtherType\<close>.
\<close>

datatype mat_type = CV_8UC1 | CV_32SC1 | CV_OtherType nat

text \<open>
  A matrix: its element type, its dimensions and its rows. A well-formed matrix has
  \<open>rows\<close> rows of \<open>cols\<close> elements each (\<open>wf_mat\<close> below). Dimensions and positions
  are natural numbers; the values of the \<open>int\<close> variables of the code are integers: no
  label and no counter exceeds \<open>max 2 maxComponent\<close>, so that 32-bit arithmetic never
  wraps around.
\<close>

record 'a Mat =
  mtype :: mat_type
  rows :: nat
  cols :: nat
  data :: "'a list list"

text \<open>The fields of \<open>cv::Moments\<close> that the code reads.\<close>

record Moments =
  m00 :: real
  m10 :: real
  m01 :: real
  nu20 :: real
  nu11 :: real
  nu02 :: real

text \<open>
  Modelled from the spec: the declarations of \<open>ComponentProperty\<close> and of the class
  (ConnectedComponent.h) are not among the sources. The spec gives a property record a
  \<open>labelID\<close> (int), an \<open>area\<close> (int), a \<open>centroid\<close> (a 2D floating-point coordinate) and an
  \<open>eccentricity\<close> (float), and the object the configuration \<open>maxComponent\<close>, the counter
  \<open>nextLabel\<close> and the collection of records.

  \<open>float\<close> and \<open>double\<close> values are idealised to exact reals; a value that IEEE-754
  arithmetic makes NaN or an infinity (a division by zero, the square root of a negative
  number) is \<open>None\<close>.
\<close>

record ComponentProperty =
  labelID :: int
  area :: int
  eccentricity :: "real option"
  centroid :: "real option \<times> real option"

text \<open>The member variables of the class \<open>ConnectedComponent\<close>.\<close>

record ConnectedComponent =
  maxComponent :: int
  nextLabel :: int
  properties :: "ComponentProperty list"

text \<open>
  What ends a call without a result:
  \<^item> \<open>PreconditionViolation\<close>: \<open>CV_Assert\<close> fails;
  \<^item> \<open>LabelCapacityExceeded n m\<close>: the \<open>std::runtime_error\<close> of pass 1, with the two
    numbers of its message (\<open>nextLabel\<close> and \<open>maxComponent\<close>);
  \<^item> \<open>AllocationFailure\<close>: \<open>std::vector\<close> is asked for a negative number of elements;
  \<^item> \<open>OutOfBounds\<close>: a \<open>std::vector\<close> is indexed outside its bounds (undefined
    behaviour in C++).
  A loop that never ends is the value \<open>None\<close> of the enclosing \<open>option\<close>.
\<close>

datatype error =
  PreconditionViolation
  | LabelCapacityExceeded int int
  | AllocationFailure
  | OutOfBounds

section \<open>Sequencing\<close>

fun bind_res :: "(error + 'a) option \<Rightarrow> ('a \<Rightarrow> (error + 'b) option) \<Rightarrow> (error + 'b) option" where
  "bind_res None f = None"
| "bind_res (Some (Inl e)) f = Some (Inl e)"
| "bind_res (Some (Inr x)) f = f x"

text \<open>
  A \<open>for\<close> loop over the values \<open>is\<close> whose body neither changes the loop variable nor
  the bound: the body runs for each value in turn, and an error or a body that does not
  return ends the loop.
\<close>

fun forM :: "'i list \<Rightarrow> ('i \<Rightarrow> 's \<Rightarrow> (error + 's) option) \<Rightarrow> 's \<Rightarrow> (error + 's) option" where
  "forM [] body s = Some (Inr s)"
| "forM (i # is) body s = bind_res (body i s) (forM is body)"

section \<open>Vectors\<close>

definition vec_get :: "int list \<Rightarrow> int \<Rightarrow> error + int" where
  "vec_get v i = (if 0 \<le> i \<and> i < int (length v) then Inr (v ! nat i) else Inl OutOfBounds)"

definition vec_set :: "int list \<Rightarrow> int \<Rightarrow> int \<Rightarrow> error + int list" where
  "vec_set v i x = (if 0 \<le> i \<and> i < int (length v) then Inr (v[nat i := x]) else Inl OutOfBounds)"

section \<open>The disjoint-set helper\<close>

text \<open>The loop \<open>while( parent[a] > 0 ) a = parent[a];\<close> and the value of \<open>a\<close> after it.\<close>

partial_function (option) chase :: "int list \<Rightarrow> int \<Rightarrow> (error + int) option" where
  "chase parent a =
     (case vec_get parent a of
        Inl e \<Rightarrow> Some (Inl e)
      | Inr p \<Rightarrow> if p > 0 then chase parent p else Some (Inr a))"

declare chase.simps [code]

definition disjointUnion :: "int \<Rightarrow> int \<Rightarrow> int list \<Rightarrow> (error + int list) option" where
  "disjointUnion a b parent =
     bind_res (chase parent a) (\<lambda>a'.
     bind_res (chase parent b) (\<lambda>b'.
       if a' \<noteq> b' then
         (if a' < b' then Some (vec_set parent a' b')
          else Some (vec_set parent b' a'))
       else Some (Inr parent)))"

text \<open>
  \<open>disjointFind\<close> reads and advances the member \<open>nextLabel\<close> and writes \<open>labels\<close>: it
  returns its value, the new \<open>labels\<close> and the new \<open>nextLabel\<close>.
\<close>

definition disjointFind :: "int \<Rightarrow> int list \<Rightarrow> int list \<Rightarrow> int \<Rightarrow> (error + int \<times> int list \<times> int) option" where
  "disjointFind a parent labels next_label =
     bind_res (chase parent a) (\<lambda>a'.
       case vec_get labels a' of
         Inl e \<Rightarrow> Some (Inl e)
       | Inr l \<Rightarrow>
           if l = 0 then
             (case vec_set labels a' next_label of
                Inl e \<Rightarrow> Some (Inl e)
              | Inr labels' \<Rightarrow> Some (Inr (next_label, labels', next_label + 1)))
           else Some (Inr (l, labels, next_label)))"

section \<open>Neighbours\<close>

text \<open>
  \<open>curr_ptr\<close> and \<open>prev_ptr\<close> are the rows the two pointers point to; \<open>None\<close> is the
  \<open>NULL\<close> pointer. \<open>std::sort\<close> followed by \<open>std::unique_copy\<close> is \<open>sort\<close> followed by
  \<open>remdups_adj\<close>.
\<close>

definition getNeighbors :: "int list \<Rightarrow> int list option \<Rightarrow> nat \<Rightarrow> nat \<Rightarrow> nat \<Rightarrow> int list" where
  "getNeighbors curr_ptr prev_ptr x y ncols =
     (let neighbors =
        (case prev_ptr of
           None \<Rightarrow> []
         | Some prev \<Rightarrow>
             (if prev ! x \<noteq> 0 then [prev ! x] else []) @
             (if x > 0 \<and> prev ! (x - 1) \<noteq> 0 then [prev ! (x - 1)] else []) @
             (if x < ncols - 1 \<and> prev ! (x + 1) \<noteq> 0 then [prev ! (x + 1)] else [])) @
        (if x > 0 \<and> curr_ptr ! (x - 1) \<noteq> 0 then [curr_ptr ! (x - 1)] else [])
      in if neighbors \<noteq> [] then remdups_adj (sort neighbors) else [])"

text \<open>\<open>std::min_element\<close>: the position of the first smallest element.\<close>

fun min_element :: "int list \<Rightarrow> nat" where
  "min_element [] = 0"
| "min_element [x] = 0"
| "min_element (x # xs) = (let i = min_element xs in if xs ! i < x then Suc i else 0)"

section \<open>Pass 1: provisional labels\<close>

text \<open>
  The state of pass 1: the rows of \<open>result\<close>, the member \<open>nextLabel\<close> and the vector
  \<open>linked\<close>. \<open>prev_ptr\<close> is the index of the row the pointer points to.
\<close>

type_synonym pass1_state = "int list list \<times> int \<times> int list"

definition pass1_pixel :: "int \<Rightarrow> nat \<Rightarrow> nat option \<Rightarrow> nat \<Rightarrow> nat \<Rightarrow> pass1_state \<Rightarrow> (error + pass1_state) option" where
  "pass1_pixel max_comp ncols prev_ptr y x s =
     (case s of (result, next_label, linked) \<Rightarrow>
        let curr_ptr = result ! y in
        if curr_ptr ! x \<noteq> 0 then
          let neighbors = getNeighbors curr_ptr (map_option (\<lambda>py. result ! py) prev_ptr) x y ncols in
          if neighbors = [] then
            let next_label' = next_label + 1 in
            if next_label' \<ge> max_comp then Some (Inl (LabelCapacityExceeded next_label' max_comp))
            else Some (Inr (result[y := curr_ptr[x := next_label]], next_label', linked))
          else
            let min_index = min_element neighbors;
                v = neighbors ! min_index
            in bind_res (forM neighbors (\<lambda>neighbor. disjointUnion v neighbor) linked)
                 (\<lambda>linked'. Some (Inr (result[y := curr_ptr[x := v]], next_label, linked')))
        else Some (Inr s))"

definition pass1_row :: "int \<Rightarrow> nat \<Rightarrow> nat \<Rightarrow> pass1_state \<times> nat option \<Rightarrow> (error + pass1_state \<times> nat option) option" where
  "pass1_row max_comp ncols y sp =
     (case sp of (s, prev_ptr) \<Rightarrow>
        bind_res (forM [0..<ncols] (pass1_pixel max_comp ncols prev_ptr y) s)
          (\<lambda>s'. Some (Inr (s', Some y))))"

definition pass1 :: "int \<Rightarrow> nat \<Rightarrow> nat \<Rightarrow> int list list \<Rightarrow> (error + pass1_state) option" where
  "pass1 max_comp nrows ncols result =
     (if max_comp < 0 then Some (Inl AllocationFailure)
      else bind_res (forM [0..<nrows] (pass1_row max_comp ncols)
                       ((result, 1, replicate (nat max_comp) 0), None))
             (\<lambda>(s, prev_ptr). Some (Inr s)))"

section \<open>Pass 2: final labels\<close>

text \<open>The state of pass 2: \<open>result\<close>, \<open>labels_set\<close>, the member \<open>nextLabel\<close> and \<open>temp\<close>.\<close>

type_synonym pass2_state = "int list list \<times> int list \<times> int \<times> int list"

definition pass2_pixel :: "int list \<Rightarrow> nat \<Rightarrow> nat \<Rightarrow> pass2_state \<Rightarrow> (error + pass2_state) option" where
  "pass2_pixel linked y x s =
     (case s of (result, labels_set, next_label, temp) \<Rightarrow>
        let curr_ptr = result ! y in
        if curr_ptr ! x \<noteq> 0 then
          bind_res (disjointFind (curr_ptr ! x) linked labels_set next_label)
            (\<lambda>(v, labels_set', next_label').
               Some (Inr (result[y := curr_ptr[x := v]], labels_set', next_label', temp @ [v])))
        else Some (Inr s))"

definition pass2 :: "int \<Rightarrow> nat \<Rightarrow> nat \<Rightarrow> int list \<Rightarrow> int list list \<Rightarrow> (error + pass2_state) option" where
  "pass2 max_comp nrows ncols linked result =
     (if max_comp < 0 then Some (Inl AllocationFailure)
      else forM [0..<nrows] (\<lambda>y. forM [0..<ncols] (pass2_pixel linked y))
             (result, replicate (nat max_comp) 0, 1, []))"

section \<open>Component properties\<close>

text \<open>
  IEEE-754 division and square root on the idealised values: no real number results from
  a division by zero or from the square root of a negative number.
\<close>

definition fdiv :: "real \<Rightarrow> real \<Rightarrow> real option" where
  "fdiv a b = (if b = 0 then None else Some (a / b))"

definition fsqrt :: "real \<Rightarrow> real option" where
  "fsqrt a = (if a < 0 then None else Some (sqrt a))"

definition eig_val_1 :: "Moments \<Rightarrow> real" where
  "eig_val_1 moment =
     (let left_comp = (nu20 moment + nu02 moment) / 2;
          right_comp = sqrt ((4 * nu11 moment * nu11 moment)
                         + (nu20 moment - nu02 moment) * (nu20 moment - nu02 moment)) / 2
      in left_comp + right_comp)"

definition eig_val_2 :: "Moments \<Rightarrow> real" where
  "eig_val_2 moment =
     (let left_comp = (nu20 moment + nu02 moment) / 2;
          right_comp = sqrt ((4 * nu11 moment * nu11 moment)
                         + (nu20 moment - nu02 moment) * (nu20 moment - nu02 moment)) / 2
      in left_comp - right_comp)"

definition calculateBlobEccentricity :: "Moments \<Rightarrow> real option" where
  "calculateBlobEccentricity moment =
     Option.bind (fdiv (eig_val_2 moment) (eig_val_1 moment)) (\<lambda>q. fsqrt (1 - q))"

definition calculateBlobCentroid :: "Moments \<Rightarrow> real option \<times> real option" where
  "calculateBlobCentroid moment =
     (fdiv (m10 moment) (m00 moment), fdiv (m01 moment) (m00 moment))"

text \<open>\<open>result == label\<close>: the 8-bit mask that is 255 where the label stands.\<close>

definition blob_of :: "int list list \<Rightarrow> int \<Rightarrow> 8 word list list" where
  "blob_of result l = map (map (\<lambda>v. if v = l then 255 else 0)) result"

definition countNonZero :: "8 word list list \<Rightarrow> int" where
  "countNonZero blob = int (length (filter (\<lambda>v. v \<noteq> 0) (concat blob)))"

text \<open>
  One round of the loop over \<open>labels\<close>. \<open>cv_moments\<close> is \<open>cv::moments\<close>, the moment
  computation of the image library, a parameter here.
\<close>

definition component_property :: "(8 word list list \<Rightarrow> Moments) \<Rightarrow> int list list \<Rightarrow> int \<Rightarrow> ComponentProperty" where
  "component_property cv_moments result l =
     (let blob = blob_of result l;
          moment = cv_moments blob
      in \<lparr> labelID = l,
           area = countNonZero blob,
           eccentricity = calculateBlobEccentricity moment,
           centroid = calculateBlobCentroid moment \<rparr>)"

section \<open>apply\<close>

text \<open>
  The labelling part of \<open>apply\<close>: the conversion of the copy to 32-bit integers, the two
  passes and the unique labels. It returns the rows of \<open>result\<close>, \<open>labels\<close> and the value of
  the member \<open>nextLabel\<close>.
\<close>

definition label_image :: "int \<Rightarrow> 8 word Mat \<Rightarrow> (error + int list list \<times> int list \<times> int) option" where
  "label_image max_comp img =
     bind_res (pass1 max_comp (rows img) (cols img) (map (map uint) (data img)))
       (\<lambda>(result, next_label, linked).
     bind_res (pass2 max_comp (rows img) (cols img) linked result)
       (\<lambda>(result', labels_set, next_label', temp).
          let labels = (if temp \<noteq> [] then remdups_adj (sort temp) else [])
          in Some (Inr (result', labels, next_label'))))"

text \<open>
  \<open>apply\<close> (the name is a keyword here, hence \<open>apply_cc\<close>) on the object \<open>cc\<close>: the value
  returned or the exception thrown, and the object afterwards. An exception leaves \<open>properties\<close> as it was; \<open>nextLabel\<close> is then the number
  of the message for \<open>LabelCapacityExceeded\<close> and 1 for a failed allocation (after
  undefined behaviour no state is meaningful).
\<close>

definition apply_cc :: "(8 word list list \<Rightarrow> Moments) \<Rightarrow> ConnectedComponent \<Rightarrow> 8 word Mat
    \<Rightarrow> ((error + int Mat) \<times> ConnectedComponent) option" where
  "apply_cc cv_moments cc img =
     (if mtype img \<noteq> CV_8UC1 then Some (Inl PreconditionViolation, cc)
      else
        (case label_image (maxComponent cc) img of
           None \<Rightarrow> None
         | Some (Inl e) \<Rightarrow>
             Some (Inl e, cc\<lparr>nextLabel := (case e of LabelCapacityExceeded n m \<Rightarrow> n | _ \<Rightarrow> 1)\<rparr>)
         | Some (Inr (result, labels, next_label)) \<Rightarrow>
             Some (Inr \<lparr> mtype = CV_32SC1, rows = rows img, cols = cols img, data = result \<rparr>,
                   cc\<lparr>nextLabel := next_label,
                      properties := map (component_property cv_moments result) labels\<rparr>)))"

definition getComponentsCount :: "ConnectedComponent \<Rightarrow> int" where
  "getComponentsCount cc = int (length (properties cc))"

definition getComponentsProperties :: "ConnectedComponent \<Rightarrow> ComponentProperty list" where
  "getComponentsProperties cc = properties cc"

section \<open>Specification-level definitions\<close>

text \<open>
  \<open>res_sat Q P m\<close>: the computation \<open>m\<close> returns; if it ends with an error the error
  satisfies \<open>Q\<close>, otherwise its value satisfies \<open>P\<close>.
\<close>

fun res_sat :: "(error \<Rightarrow> bool) \<Rightarrow> ('a \<Rightarrow> bool) \<Rightarrow> (error + 'a) option \<Rightarrow> bool" where
  "res_sat Q P None = False"
| "res_sat Q P (Some (Inl e)) = Q e"
| "res_sat Q P (Some (Inr x)) = P x"

text \<open>
  The parent vector has no cycle: every entry is 0 (a root) or a larger index of the
  vector.
\<close>

definition acyclic_parent :: "int list \<Rightarrow> bool" where
  "acyclic_parent parent \<longleftrightarrow>
     (\<forall>i<length parent. parent ! i = 0 \<or> (int i < parent ! i \<and> parent ! i < int (length parent)))"

text \<open>
  The root the loop of \<open>chase\<close> ends at in a vector without cycles, as a total function:
  it follows the entries that point to a larger index inside the vector.
\<close>

function root_of :: "int list \<Rightarrow> int \<Rightarrow> int" where
  "root_of parent a =
     (if 0 \<le> a \<and> a < int (length parent) \<and> a < parent ! nat a
      then root_of parent (parent ! nat a) else a)"
  by pat_completeness auto

termination
  by (relation "measure (\<lambda>(parent, a). nat (int (length parent) - a))") auto

declare root_of.simps [simp del]

text \<open>\<open>a\<close> is an index of the vector.\<close>

definition in_range :: "int list \<Rightarrow> int \<Rightarrow> bool" where
  "in_range parent a \<longleftrightarrow> 0 \<le> a \<and> a < int (length parent)"

text \<open>Every entry of the vector is below \<open>n\<close>.\<close>

definition bounded_parent :: "int \<Rightarrow> int list \<Rightarrow> bool" where
  "bounded_parent n parent \<longleftrightarrow> (\<forall>i<length parent. parent ! i < n)"

text \<open>What \<open>disjointUnion\<close> returns on a vector without cycles, with \<open>root_of\<close> for the chases.\<close>

definition uf_union :: "int list \<Rightarrow> int \<Rightarrow> int \<Rightarrow> int list" where
  "uf_union ps a b =
     (let ra = root_of ps a; rb = root_of ps b
      in if ra = rb then ps else ps[nat (min ra rb) := max ra rb])"

text \<open>Two labels are in the same set.\<close>

definition eqv :: "int list \<Rightarrow> int \<Rightarrow> int \<Rightarrow> bool" where
  "eqv ps l l' \<longleftrightarrow> root_of ps l = root_of ps l'"

text \<open>The loop over \<open>neighbors\<close> in pass 1.\<close>

definition uf_union_all :: "int \<Rightarrow> int list \<Rightarrow> int list \<Rightarrow> int list" where
  "uf_union_all v ns ps = foldl (\<lambda>ps n. uf_union ps v n) ps ns"

text \<open>A pixel position: row and column.\<close>

type_synonym pos = "nat \<times> nat"

text \<open>The matrix has \<open>rows\<close> rows of \<open>cols\<close> elements.\<close>

definition wf_mat :: "'a Mat \<Rightarrow> bool" where
  "wf_mat img \<longleftrightarrow> length (data img) = rows img \<and> (\<forall>r\<in>set (data img). length r = cols img)"

definition in_image :: "'a Mat \<Rightarrow> pos \<Rightarrow> bool" where
  "in_image img p \<longleftrightarrow> fst p < rows img \<and> snd p < cols img"

definition pixel :: "'a Mat \<Rightarrow> pos \<Rightarrow> 'a" where
  "pixel img p = data img ! fst p ! snd p"

text \<open>A foreground pixel: a position inside the image whose value is not 0.\<close>

definition fg :: "8 word Mat \<Rightarrow> pos \<Rightarrow> bool" where
  "fg img p \<longleftrightarrow> in_image img p \<and> pixel img p \<noteq> 0"

text \<open>
  8-connectivity: two distinct positions are adjacent when their rows and their columns
  differ by at most 1; two foreground pixels are connected when a chain of adjacent
  foreground pixels leads from one to the other.
\<close>

definition adj8 :: "pos \<Rightarrow> pos \<Rightarrow> bool" where
  "adj8 p q \<longleftrightarrow> p \<noteq> q \<and> fst p \<le> fst q + 1 \<and> fst q \<le> fst p + 1
                 \<and> snd p \<le> snd q + 1 \<and> snd q \<le> snd p + 1"

definition edges8 :: "8 word Mat \<Rightarrow> (pos \<times> pos) set" where
  "edges8 img = {(p, q). fg img p \<and> fg img q \<and> adj8 p q}"

definition connected8 :: "8 word Mat \<Rightarrow> pos \<Rightarrow> pos \<Rightarrow> bool" where
  "connected8 img p q \<longleftrightarrow> fg img p \<and> fg img q \<and> (p, q) \<in> (edges8 img)\<^sup>*"

text \<open>Raster order: \<open>p\<close> is visited before \<open>c\<close>.\<close>

definition earlier :: "pos \<Rightarrow> pos \<Rightarrow> bool" where
  "earlier p c \<longleftrightarrow> fst p < fst c \<or> (fst p = fst c \<and> snd p < snd c)"

text \<open>
  The neighbours of \<open>c\<close> that the scan has visited when it reaches \<open>c\<close>: up, up-left,
  up-right (none in row 0) and left (none in column 0); \<open>prior_nbrs\<close> are those of them
  that are foreground pixels of the image, which leaves out the position right of the
  last column.
\<close>

definition prior_positions :: "pos \<Rightarrow> pos list" where
  "prior_positions c =
     (if fst c > 0
      then [(fst c - 1, snd c)] @ (if snd c > 0 then [(fst c - 1, snd c - 1)] else [])
           @ [(fst c - 1, snd c + 1)]
      else [])
     @ (if snd c > 0 then [(fst c, snd c - 1)] else [])"

definition prior_nbrs :: "8 word Mat \<Rightarrow> pos \<Rightarrow> pos set" where
  "prior_nbrs img c = {n \<in> set (prior_positions c). fg img n}"

text \<open>The adjacencies between the foreground pixels visited before \<open>c\<close>.\<close>

definition edges_upto :: "8 word Mat \<Rightarrow> pos \<Rightarrow> (pos \<times> pos) set" where
  "edges_upto img c = {(p, q). (p, q) \<in> edges8 img \<and> earlier p c \<and> earlier q c}"

text \<open>The value of \<open>result\<close> at a position; \<open>result\<close> has the shape of the image.\<close>

definition lab_of :: "int list list \<Rightarrow> pos \<Rightarrow> int" where
  "lab_of result p = result ! fst p ! snd p"

definition shape_ok :: "'a Mat \<Rightarrow> int list list \<Rightarrow> bool" where
  "shape_ok img result \<longleftrightarrow> length result = rows img \<and> (\<forall>y<rows img. length (result ! y) = cols img)"

text \<open>
  The invariant of pass 1 when the scan is about to visit \<open>c\<close>, in parts. The visited
  foreground pixels carry labels from 1 to \<open>nextLabel - 1\<close>, the visited background pixels
  0, and the other pixels their input values.
\<close>

definition inv_labels :: "8 word Mat \<Rightarrow> pos \<Rightarrow> int list list \<Rightarrow> int \<Rightarrow> bool" where
  "inv_labels img c result nl \<longleftrightarrow>
     (\<forall>p. in_image img p \<longrightarrow>
        (if earlier p c
         then (if fg img p then 1 \<le> lab_of result p \<and> lab_of result p < nl else lab_of result p = 0)
         else lab_of result p = uint (pixel img p)))"

text \<open>
  \<open>nextLabel\<close> is 1 or below \<open>maxComponent\<close>; \<open>linked\<close> has \<open>maxComponent\<close> entries, no
  cycle, and no entry that reaches \<open>nextLabel\<close>.
\<close>

definition inv_uf :: "int \<Rightarrow> int \<Rightarrow> int list \<Rightarrow> bool" where
  "inv_uf mc nl linked \<longleftrightarrow>
     1 \<le> nl \<and> (nl = 1 \<or> nl < mc) \<and> length linked = nat mc
     \<and> acyclic_parent linked \<and> bounded_parent nl linked"

text \<open>
  Two visited foreground pixels have labels in the same set exactly when a chain of
  adjacent visited foreground pixels joins them.
\<close>

definition inv_conn :: "8 word Mat \<Rightarrow> pos \<Rightarrow> int list list \<Rightarrow> int list \<Rightarrow> bool" where
  "inv_conn img c result linked \<longleftrightarrow>
     (\<forall>p q. fg img p \<and> earlier p c \<and> fg img q \<and> earlier q c \<longrightarrow>
        (eqv linked (lab_of result p) (lab_of result q) \<longleftrightarrow> (p, q) \<in> (edges_upto img c)\<^sup>*))"

text \<open>
  A pixel that gets a fresh label: a foreground pixel with no foreground pixel among its
  visited neighbours. \<open>nextLabel\<close> is one more than the number of such pixels visited.
\<close>

definition needs_fresh :: "8 word Mat \<Rightarrow> pos \<Rightarrow> bool" where
  "needs_fresh img p \<longleftrightarrow> fg img p \<and> (\<forall>n\<in>set (prior_positions p). \<not> fg img n)"

definition inv_count :: "8 word Mat \<Rightarrow> pos \<Rightarrow> int \<Rightarrow> bool" where
  "inv_count img c nl \<longleftrightarrow> nl = 1 + int (card {p. needs_fresh img p \<and> earlier p c})"

text \<open>A visited pixel with visited foreground neighbours carries the least of their labels.\<close>

definition inv_min :: "8 word Mat \<Rightarrow> pos \<Rightarrow> int list list \<Rightarrow> bool" where
  "inv_min img c result \<longleftrightarrow>
     (\<forall>p. fg img p \<and> earlier p c \<and> prior_nbrs img p \<noteq> {} \<longrightarrow>
        lab_of result p = Min (lab_of result ` prior_nbrs img p))"

text \<open>The invariant of pass 1 on the state (\<open>result\<close>, \<open>nextLabel\<close>, \<open>linked\<close>).\<close>

definition pass1_inv :: "8 word Mat \<Rightarrow> int \<Rightarrow> pos \<Rightarrow> pass1_state \<Rightarrow> bool" where
  "pass1_inv img mc c s \<longleftrightarrow>
     (case s of (result, nl, linked) \<Rightarrow>
        shape_ok img result \<and> inv_labels img c result nl \<and> inv_uf mc nl linked
        \<and> inv_conn img c result linked \<and> inv_count img c nl \<and> inv_min img c result)"

text \<open>\<open>result\<close> after \<open>curr_ptr[x] = v\<close> in row \<open>y\<close>, for the position \<open>(y, x)\<close>.\<close>

definition set_px :: "int list list \<Rightarrow> pos \<Rightarrow> int \<Rightarrow> int list list" where
  "set_px result p v = result[fst p := (result ! fst p)[snd p := v]]"

text \<open>
  The only error of the labelling: the capacity error, with \<open>max 2 maxComponent\<close> as
  \<open>nextLabel\<close>, thrown when that many labels less one are needed at the latest.
\<close>

definition cap_err :: "8 word Mat \<Rightarrow> int \<Rightarrow> error \<Rightarrow> bool" where
  "cap_err img mc e \<longleftrightarrow>
     (\<exists>n. e = LabelCapacityExceeded n mc \<and> n = max 2 mc
          \<and> n \<le> 1 + int (card {p. needs_fresh img p}))"

text \<open>
  The states of pass 1: \<open>pass1_reach img mc (y, x) s\<close> when \<open>s\<close> is the state in which the
  scan of \<open>img\<close> with \<open>maxComponent = mc\<close> is about to visit the pixel in row \<open>y\<close> and
  column \<open>x\<close>; \<open>(rows img, 0)\<close> is the end of the pass.
\<close>

inductive pass1_reach :: "8 word Mat \<Rightarrow> int \<Rightarrow> pos \<Rightarrow> pass1_state \<Rightarrow> bool"
  for img :: "8 word Mat" and mc :: int where
  start: "0 \<le> mc \<Longrightarrow>
          pass1_reach img mc (0, 0) (map (map uint) (data img), 1, replicate (nat mc) 0)"
| pixel: "pass1_reach img mc (y, x) s \<Longrightarrow> y < rows img \<Longrightarrow> x < cols img \<Longrightarrow>
          pass1_pixel mc (cols img) (if y = 0 then None else Some (y - 1)) y x s = Some (Inr s') \<Longrightarrow>
          pass1_reach img mc (y, Suc x) s'"
| row_end: "pass1_reach img mc (y, cols img) s \<Longrightarrow> y < rows img \<Longrightarrow>
          pass1_reach img mc (Suc y, 0) s"

text \<open>The invariant together with the state being one of pass 1.\<close>

definition pass1_at :: "8 word Mat \<Rightarrow> int \<Rightarrow> pos \<Rightarrow> pass1_state \<Rightarrow> bool" where
  "pass1_at img mc c s \<longleftrightarrow> pass1_inv img mc c s \<and> pass1_reach img mc c s"

text \<open>What pass 2 needs of the result of pass 1.\<close>

definition pass1_post :: "8 word Mat \<Rightarrow> int \<Rightarrow> int list list \<Rightarrow> int list \<Rightarrow> bool" where
  "pass1_post img mc result1 linked \<longleftrightarrow>
     shape_ok img result1 \<and> length linked = nat mc \<and> acyclic_parent linked
     \<and> (\<forall>p. in_image img p \<longrightarrow>
           (if fg img p then in_range linked (lab_of result1 p) \<and> 1 \<le> lab_of result1 p
            else lab_of result1 p = 0))
     \<and> (\<forall>p q. fg img p \<and> fg img q \<longrightarrow>
           (eqv linked (lab_of result1 p) (lab_of result1 q) \<longleftrightarrow> (p, q) \<in> (edges8 img)\<^sup>*))"

text \<open>
  The invariant of pass 2 when the scan is about to visit \<open>c\<close>: the visited foreground
  pixels carry the final label of their root, \<open>labels_set\<close> maps the roots met so far
  one-to-one onto 1, ..., \<open>nextLabel - 1\<close> and every other label to 0, and \<open>temp\<close> holds
  the final labels written.
\<close>

definition roots_upto :: "8 word Mat \<Rightarrow> int list list \<Rightarrow> int list \<Rightarrow> pos \<Rightarrow> int set" where
  "roots_upto img result1 linked c =
     (\<lambda>p. root_of linked (lab_of result1 p)) ` {p. fg img p \<and> earlier p c}"

definition pass2_inv :: "8 word Mat \<Rightarrow> int list list \<Rightarrow> int list \<Rightarrow> pos \<Rightarrow> pass2_state \<Rightarrow> bool" where
  "pass2_inv img result1 linked c s \<longleftrightarrow>
     (case s of (result, ls, nl, temp) \<Rightarrow>
        shape_ok img result \<and> length ls = length linked \<and> 1 \<le> nl
        \<and> (\<forall>p. in_image img p \<longrightarrow>
              lab_of result p =
                (if earlier p c \<and> fg img p then ls ! nat (root_of linked (lab_of result1 p))
                 else lab_of result1 p))
        \<and> (\<forall>r. in_range linked r \<longrightarrow>
              (if r \<in> roots_upto img result1 linked c then 1 \<le> ls ! nat r \<and> ls ! nat r < nl
               else ls ! nat r = 0))
        \<and> inj_on (\<lambda>r. ls ! nat r) (roots_upto img result1 linked c)
        \<and> (\<lambda>r. ls ! nat r) ` roots_upto img result1 linked c = {1..<nl}
        \<and> set temp = lab_of result ` {p. fg img p \<and> earlier p c})"

text \<open>Pass 2 has no error of its own.\<close>

definition no_err :: "error \<Rightarrow> bool" where
  "no_err e \<longleftrightarrow> False"

text \<open>
  What the labelling returns: foreground pixels carry labels from 1 to \<open>nextLabel - 1\<close>,
  each of them used, background pixels 0; two foreground pixels carry the same label
  exactly when they are connected; \<open>labels\<close> lists the labels in order.
\<close>

definition labelling_ok :: "8 word Mat \<Rightarrow> int list list \<times> int list \<times> int \<Rightarrow> bool" where
  "labelling_ok img out \<longleftrightarrow>
     (case out of (result, labels, nl) \<Rightarrow>
        shape_ok img result \<and> 1 \<le> nl
        \<and> (\<forall>p. in_image img p \<longrightarrow>
              (if fg img p then 1 \<le> lab_of result p \<and> lab_of result p < nl
               else lab_of result p = 0))
        \<and> (\<forall>p q. fg img p \<and> fg img q \<longrightarrow>
              (lab_of result p = lab_of result q \<longleftrightarrow> (p, q) \<in> (edges8 img)\<^sup>*))
        \<and> lab_of result ` {p. fg img p} = {1..<nl}
        \<and> labels = map int [1..<nat nl])"

text \<open>Pass 1 ends without the capacity error.\<close>

definition cap_ok :: "8 word Mat \<Rightarrow> int \<Rightarrow> bool" where
  "cap_ok img mc \<longleftrightarrow>
     card {p. needs_fresh img p} = 0 \<or> 1 + int (card {p. needs_fresh img p}) < mc"

text \<open>The number of fresh provisional labels pass 1 needs for an image.\<close>

definition fresh_count :: "8 word Mat \<Rightarrow> int" where
  "fresh_count img =
     int (length (filter (needs_fresh img) (List.product [0..<rows img] [0..<cols img])))"

text \<open>The 8-connected components of the foreground.\<close>

definition components :: "8 word Mat \<Rightarrow> pos set set" where
  "components img = (\<lambda>p. {q. connected8 img p q}) ` {p. fg img p}"

text \<open>Inputs for the examples: a moment computation that returns zeros, and small images.\<close>

definition zero_moments :: "8 word list list \<Rightarrow> Moments" where
  "zero_moments blob = \<lparr> m00 = 0, m10 = 0, m01 = 0, nu20 = 0, nu11 = 0, nu02 = 0 \<rparr>"

definition example_image :: "8 word Mat" where
  "example_image = \<lparr> mtype = CV_8UC1, rows = 2, cols = 3, data = [[255, 0, 255], [0, 255, 0]] \<rparr>"

definition example_cc :: ConnectedComponent where
  "example_cc = \<lparr> maxComponent = 10, nextLabel = 1, properties = [] \<rparr>"

definition example_labels :: "int Mat" where
  "example_labels = \<lparr> mtype = CV_32SC1, rows = 2, cols = 3, data = [[1, 0, 1], [0, 1, 0]] \<rparr>"

definition example_cc' :: ConnectedComponent where
  "example_cc' = \<lparr> maxComponent = 10, nextLabel = 2,
      properties = [\<lparr> labelID = 1, area = 3, eccentricity = None, centroid = (None, None) \<rparr>] \<rparr>"

definition single_pixel_image :: "8 word Mat" where
  "single_pixel_image = \<lparr> mtype = CV_8UC1, rows = 1, cols = 1, data = [[255]] \<rparr>"


section \<open>Proofs\<close>

subsection \<open>Results and loops\<close>

lemma res_cases [case_names Diverge Err Ok]:
  fixes m :: "(error + 'a) option"
  obtains "m = None" | e where "m = Some (Inl e)" | x where "m = Some (Inr x)"
proof (cases m)
  case None
  then show ?thesis using that by simp
next
  case (Some v)
  then show ?thesis using that by (cases v) auto
qed

lemma res_sat_bind:
  assumes "res_sat Q P' m" and "\<And>x. P' x \<Longrightarrow> res_sat Q P (f x)"
  shows "res_sat Q P (bind_res m f)"
  using assms by (cases m rule: res_cases) auto

lemma res_sat_mono:
  assumes "res_sat Q P m" and "\<And>e. Q e \<Longrightarrow> Q' e" and "\<And>x. P x \<Longrightarrow> P' x"
  shows "res_sat Q' P' m"
  using assms by (cases m rule: res_cases) auto

lemma forM_append:
  "forM (xs @ ys) body s = bind_res (forM xs body s) (forM ys body)"
proof (induction xs arbitrary: s)
  case Nil
  then show ?case by simp
next
  case (Cons i xs)
  show ?case
    by (cases "body i s" rule: res_cases) (simp_all add: Cons.IH)
qed

lemma forM_upt_rule:
  assumes init: "I a s" and le: "a \<le> b"
    and step: "\<And>i t. a \<le> i \<Longrightarrow> i < b \<Longrightarrow> I i t \<Longrightarrow> res_sat Q (I (Suc i)) (body i t)"
  shows "res_sat Q (I b) (forM [a..<b] body s)"
  using le init step
proof (induction b arbitrary: s)
  case 0
  then show ?case by simp
next
  case (Suc b)
  show ?case
  proof (cases "a = Suc b")
    case True
    with Suc.prems show ?thesis by simp
  next
    case False
    with Suc.prems have ab: "a \<le> b" by simp
    have "res_sat Q (I b) (forM [a..<b] body s)"
      using ab Suc.prems(2) Suc.prems(3) by (intro Suc.IH) auto
    moreover have "\<And>t. I b t \<Longrightarrow> res_sat Q (I (Suc b)) (forM [b] body t)"
    proof -
      fix t assume "I b t"
      then have "res_sat Q (I (Suc b)) (body b t)" using Suc.prems(3)[of b t] ab by simp
      then show "res_sat Q (I (Suc b)) (forM [b] body t)"
        by (cases "body b t" rule: res_cases) auto
    qed
    ultimately have "res_sat Q (I (Suc b)) (bind_res (forM [a..<b] body s) (forM [b] body))"
      by (rule res_sat_bind)
    then show ?thesis using ab by (simp add: forM_append)
  qed
qed

subsection \<open>Roots of the disjoint set\<close>

lemma in_range_nat: "in_range ps a \<Longrightarrow> nat a < length ps \<and> int (nat a) = a \<and> 0 \<le> a"
  by (auto simp: in_range_def)

lemma acyclic_parentD:
  assumes "acyclic_parent ps" "in_range ps a"
  shows "ps ! nat a = 0 \<or> (a < ps ! nat a \<and> in_range ps (ps ! nat a))"
proof -
  from assms(2) have "nat a < length ps" "int (nat a) = a" by (auto simp: in_range_def)
  with assms(1) have "ps ! nat a = 0 \<or> (int (nat a) < ps ! nat a \<and> ps ! nat a < int (length ps))"
    unfolding acyclic_parent_def by blast
  with \<open>int (nat a) = a\<close> assms(2) show ?thesis by (auto simp: in_range_def)
qed

lemma root_of_step:
  "in_range ps a \<Longrightarrow> a < ps ! nat a \<Longrightarrow> root_of ps a = root_of ps (ps ! nat a)"
  by (subst root_of.simps) (simp add: in_range_def)

lemma root_of_stop:
  "\<not> (in_range ps a \<and> a < ps ! nat a) \<Longrightarrow> root_of ps a = a"
  by (subst root_of.simps) (auto simp add: in_range_def)

lemma root_of_props:
  assumes "acyclic_parent ps" "in_range ps a"
  shows "in_range ps (root_of ps a) \<and> ps ! nat (root_of ps a) = 0 \<and> a \<le> root_of ps a"
  using assms
proof (induction ps a rule: root_of.induct)
  case (1 ps a)
  from acyclic_parentD[OF "1.prems"] show ?case
  proof
    assume z: "ps ! nat a = 0"
    with "1.prems"(2) have "root_of ps a = a" by (intro root_of_stop) (auto simp: in_range_def)
    with z "1.prems"(2) show ?thesis by simp
  next
    assume st: "a < ps ! nat a \<and> in_range ps (ps ! nat a)"
    then have eq: "root_of ps a = root_of ps (ps ! nat a)" using "1.prems"(2) by (simp add: root_of_step)
    have "in_range ps (root_of ps (ps ! nat a)) \<and> ps ! nat (root_of ps (ps ! nat a)) = 0
            \<and> ps ! nat a \<le> root_of ps (ps ! nat a)"
      using "1.IH" "1.prems" st by (simp add: in_range_def)
    with eq st show ?thesis by simp
  qed
qed

lemma root_of_in_range: "acyclic_parent ps \<Longrightarrow> in_range ps a \<Longrightarrow> in_range ps (root_of ps a)"
  by (simp add: root_of_props)

lemma root_of_is_root: "acyclic_parent ps \<Longrightarrow> in_range ps a \<Longrightarrow> ps ! nat (root_of ps a) = 0"
  by (simp add: root_of_props)

lemma root_of_ge: "acyclic_parent ps \<Longrightarrow> in_range ps a \<Longrightarrow> a \<le> root_of ps a"
  by (simp add: root_of_props)

lemma root_of_root: "ps ! nat r = 0 \<Longrightarrow> 0 \<le> r \<Longrightarrow> root_of ps r = r"
  by (rule root_of_stop) auto

lemma root_of_idem: "acyclic_parent ps \<Longrightarrow> in_range ps a \<Longrightarrow> root_of ps (root_of ps a) = root_of ps a"
  using root_of_props[of ps a] by (auto intro: root_of_root simp: in_range_def)

lemma chase_root_of:
  assumes "acyclic_parent ps" "in_range ps a"
  shows "chase ps a = Some (Inr (root_of ps a))"
  using assms
proof (induction ps a rule: root_of.induct)
  case (1 ps a)
  have vg: "vec_get ps a = Inr (ps ! nat a)" using "1.prems"(2) by (simp add: vec_get_def in_range_def)
  from acyclic_parentD[OF "1.prems"] show ?case
  proof
    assume z: "ps ! nat a = 0"
    then have "root_of ps a = a" using "1.prems"(2) by (intro root_of_stop) (auto simp: in_range_def)
    with z vg show ?thesis by (subst chase.simps) simp
  next
    assume st: "a < ps ! nat a \<and> in_range ps (ps ! nat a)"
    then have eq: "root_of ps a = root_of ps (ps ! nat a)" using "1.prems"(2) by (simp add: root_of_step)
    have "chase ps (ps ! nat a) = Some (Inr (root_of ps (ps ! nat a)))"
      using "1.IH" "1.prems" st by (simp add: in_range_def)
    moreover have "0 < ps ! nat a" using st "1.prems"(2) by (simp add: in_range_def)
    ultimately show ?thesis using vg eq by (subst chase.simps) simp
  qed
qed

lemma root_of_bounded:
  assumes "acyclic_parent ps" "in_range ps a" "bounded_parent n ps" "a < n"
  shows "root_of ps a < n"
  using assms
proof (induction ps a rule: root_of.induct)
  case (1 ps a)
  from acyclic_parentD[OF "1.prems"(1,2)] show ?case
  proof
    assume z: "ps ! nat a = 0"
    then have "root_of ps a = a" using "1.prems"(2) by (intro root_of_stop) (auto simp: in_range_def)
    with "1.prems" show ?thesis by simp
  next
    assume st: "a < ps ! nat a \<and> in_range ps (ps ! nat a)"
    then have eq: "root_of ps a = root_of ps (ps ! nat a)" using "1.prems"(2) by (simp add: root_of_step)
    have "ps ! nat a < n" using "1.prems"(3) in_range_nat[OF "1.prems"(2)] by (simp add: bounded_parent_def)
    then have "root_of ps (ps ! nat a) < n"
      using "1.IH" "1.prems" st by (simp add: in_range_def)
    with eq show ?thesis by simp
  qed
qed

lemma acyclic_link:
  assumes ac: "acyclic_parent ps" and ra: "in_range ps ra" and rb: "in_range ps rb" and lt: "ra < rb"
  shows "acyclic_parent (ps[nat ra := rb])"
  unfolding acyclic_parent_def
proof (intro allI impI)
  fix i assume "i < length (ps[nat ra := rb])"
  then have i: "i < length ps" by simp
  show "ps[nat ra := rb] ! i = 0 \<or> (int i < ps[nat ra := rb] ! i \<and> ps[nat ra := rb] ! i < int (length (ps[nat ra := rb])))"
  proof (cases "i = nat ra")
    case True
    with i ra rb lt show ?thesis by (simp add: in_range_def)
  next
    case False
    with i ac show ?thesis by (simp add: acyclic_parent_def)
  qed
qed

lemma root_of_link:
  assumes ac: "acyclic_parent ps" and ra: "in_range ps ra" and rb: "in_range ps rb"
    and za: "ps ! nat ra = 0" and zb: "ps ! nat rb = 0" and lt: "ra < rb"
    and l: "in_range ps l"
  shows "root_of (ps[nat ra := rb]) l = (if root_of ps l = ra then rb else root_of ps l)"
  using l
proof (induction "nat (int (length ps) - l)" arbitrary: l rule: less_induct)
  case less
  let ?ps = "ps[nat ra := rb]"
  have rng: "\<And>k. in_range ?ps k = in_range ps k" by (simp add: in_range_def)
  have nb: "nat rb \<noteq> nat ra" using ra rb lt by (simp add: in_range_def)
  have rb': "root_of ?ps rb = rb"
    using zb nb rb by (intro root_of_root) (auto simp: in_range_def)
  show ?case
  proof (cases "l = ra")
    case True
    have "root_of ps ra = ra" using za ra by (intro root_of_root) (auto simp: in_range_def)
    moreover have "root_of ?ps ra = root_of ?ps rb"
    proof -
      have "?ps ! nat ra = rb" using in_range_nat[OF ra] by simp
      then show ?thesis using ra lt root_of_step[of ?ps ra] by (simp add: rng)
    qed
    ultimately show ?thesis using True rb' by simp
  next
    case False
    then have nl: "nat l \<noteq> nat ra" using less.prems ra by (auto simp add: in_range_def)
    then have same: "?ps ! nat l = ps ! nat l" by simp
    from acyclic_parentD[OF ac less.prems] show ?thesis
    proof
      assume z: "ps ! nat l = 0"
      then have "root_of ps l = l" using less.prems by (intro root_of_root) (auto simp: in_range_def)
      moreover have "root_of ?ps l = l" using z same less.prems by (intro root_of_root) (auto simp: in_range_def)
      ultimately show ?thesis using False by simp
    next
      assume st: "l < ps ! nat l \<and> in_range ps (ps ! nat l)"
      then have e1: "root_of ps l = root_of ps (ps ! nat l)" using less.prems by (simp add: root_of_step)
      have e2: "root_of ?ps l = root_of ?ps (ps ! nat l)"
        using root_of_step[of ?ps l] st less.prems same by (simp add: rng)
      have "nat (int (length ps) - ps ! nat l) < nat (int (length ps) - l)"
        using st by (simp add: in_range_def)
      from less.hyps[OF this] st
      have "root_of ?ps (ps ! nat l) = (if root_of ps (ps ! nat l) = ra then rb else root_of ps (ps ! nat l))"
        by simp
      with e1 e2 show ?thesis by simp
    qed
  qed
qed

subsection \<open>Union\<close>

lemma disjointUnion_uf_union:
  assumes ac: "acyclic_parent ps" and a: "in_range ps a" and b: "in_range ps b"
  shows "disjointUnion a b ps = Some (Inr (uf_union ps a b))"
proof -
  have ca: "chase ps a = Some (Inr (root_of ps a))" using ac a by (rule chase_root_of)
  have cb: "chase ps b = Some (Inr (root_of ps b))" using ac b by (rule chase_root_of)
  have ra: "in_range ps (root_of ps a)" using ac a by (rule root_of_in_range)
  have rb: "in_range ps (root_of ps b)" using ac b by (rule root_of_in_range)
  show ?thesis
    using ra rb unfolding disjointUnion_def ca cb uf_union_def
    by (auto simp: vec_set_def in_range_def Let_def min_def max_def)
qed

lemma length_uf_union [simp]: "length (uf_union ps a b) = length ps"
  by (simp add: uf_union_def Let_def)

lemma in_range_uf_union [simp]: "in_range (uf_union ps a b) l = in_range ps l"
  by (simp add: in_range_def)

lemma uf_union_cases:
  assumes ac: "acyclic_parent ps" and a: "in_range ps a" and b: "in_range ps b"
  obtains (same) "root_of ps a = root_of ps b" "uf_union ps a b = ps"
  | (link) lo hi where "{lo, hi} = {root_of ps a, root_of ps b}" "lo < hi"
      "in_range ps lo" "in_range ps hi" "ps ! nat lo = 0" "ps ! nat hi = 0"
      "uf_union ps a b = ps[nat lo := hi]"
proof (cases "root_of ps a = root_of ps b")
  case True
  then show ?thesis using same by (simp add: uf_union_def Let_def)
next
  case False
  let ?ra = "root_of ps a" and ?rb = "root_of ps b"
  have pa: "in_range ps ?ra" "ps ! nat ?ra = 0" using root_of_props[OF ac a] by auto
  have pb: "in_range ps ?rb" "ps ! nat ?rb = 0" using root_of_props[OF ac b] by auto
  show ?thesis
  proof (rule link[of "min ?ra ?rb" "max ?ra ?rb"])
    show "{min ?ra ?rb, max ?ra ?rb} = {?ra, ?rb}" by (auto simp: min_def max_def)
    show "min ?ra ?rb < max ?ra ?rb" using False by (auto simp: min_def max_def)
    show "in_range ps (min ?ra ?rb)" using pa pb by (simp add: min_def)
    show "in_range ps (max ?ra ?rb)" using pa pb by (simp add: max_def)
    show "ps ! nat (min ?ra ?rb) = 0" using pa pb by (simp add: min_def)
    show "ps ! nat (max ?ra ?rb) = 0" using pa pb by (simp add: max_def)
    show "uf_union ps a b = ps[nat (min ?ra ?rb) := max ?ra ?rb]"
      using False by (simp add: uf_union_def Let_def)
  qed
qed

lemma acyclic_uf_union:
  assumes ac: "acyclic_parent ps" and a: "in_range ps a" and b: "in_range ps b"
  shows "acyclic_parent (uf_union ps a b)"
  using ac a b
proof (cases rule: uf_union_cases)
  case same
  then show ?thesis using ac by simp
next
  case (link lo hi)
  then show ?thesis using acyclic_link[OF ac, of lo hi] by simp
qed

lemma bounded_uf_union:
  assumes ac: "acyclic_parent ps" and a: "in_range ps a" and b: "in_range ps b"
    and bd: "bounded_parent n ps" and an: "a < n" and bn: "b < n"
  shows "bounded_parent n (uf_union ps a b)"
  using ac a b
proof (cases rule: uf_union_cases)
  case same
  then show ?thesis using bd by simp
next
  case (link lo hi)
  have "root_of ps a < n" "root_of ps b < n"
    using root_of_bounded[OF ac a bd an] root_of_bounded[OF ac b bd bn] by auto
  then have "hi < n" using link(1) by (metis insert_iff singletonD)
  then show ?thesis using bd in_range_nat[OF link(3)] unfolding link(7)
    by (auto simp: bounded_parent_def nth_list_update)
qed

lemma root_of_uf_union:
  assumes ac: "acyclic_parent ps" and a: "in_range ps a" and b: "in_range ps b"
    and l: "in_range ps l"
  shows "root_of (uf_union ps a b) l =
      (if root_of ps l = root_of ps a \<or> root_of ps l = root_of ps b
       then max (root_of ps a) (root_of ps b) else root_of ps l)"
  using ac a b
proof (cases rule: uf_union_cases)
  case same
  then show ?thesis by auto
next
  case (link lo hi)
  have r: "root_of (ps[nat lo := hi]) l = (if root_of ps l = lo then hi else root_of ps l)"
    using link by (intro root_of_link[OF ac _ _ _ _ _ l]) auto
  have hi: "hi = max (root_of ps a) (root_of ps b)"
    using link(1,2) by (auto simp: max_def doubleton_eq_iff)
  have notroot: "root_of ps l \<noteq> hi \<or> root_of ps l = hi" by simp
  show ?thesis
  proof (cases "root_of ps l = lo")
    case True
    then show ?thesis using r link(1,7) hi by (auto simp: doubleton_eq_iff)
  next
    case False
    then show ?thesis using r link(1,7) hi by (auto simp: doubleton_eq_iff)
  qed
qed

lemma eqv_uf_union:
  assumes ac: "acyclic_parent ps" and a: "in_range ps a" and b: "in_range ps b"
    and l: "in_range ps l" and l': "in_range ps l'"
  shows "eqv (uf_union ps a b) l l' \<longleftrightarrow>
      eqv ps l l' \<or> (eqv ps l a \<or> eqv ps l b) \<and> (eqv ps l' a \<or> eqv ps l' b)"
  unfolding eqv_def root_of_uf_union[OF ac a b l] root_of_uf_union[OF ac a b l']
  by (auto simp: max_def)

lemma eqv_refl [simp]: "eqv ps l l"
  by (simp add: eqv_def)

lemma eqv_sym: "eqv ps l l' \<Longrightarrow> eqv ps l' l"
  by (simp add: eqv_def)

lemma eqv_trans: "eqv ps l l' \<Longrightarrow> eqv ps l' l'' \<Longrightarrow> eqv ps l l''"
  by (simp add: eqv_def)

lemma uf_union_all_simps [simp]:
  "uf_union_all v [] ps = ps"
  "uf_union_all v (n # ns) ps = uf_union_all v ns (uf_union ps v n)"
  by (simp_all add: uf_union_all_def)

lemma length_uf_union_all [simp]: "length (uf_union_all v ns ps) = length ps"
  by (induction ns arbitrary: ps) simp_all

lemma forM_disjointUnion:
  assumes "acyclic_parent ps" "in_range ps v" "\<forall>n\<in>set ns. in_range ps n"
  shows "forM ns (\<lambda>neighbor. disjointUnion v neighbor) ps = Some (Inr (uf_union_all v ns ps))
       \<and> acyclic_parent (uf_union_all v ns ps)"
  using assms
proof (induction ns arbitrary: ps)
  case Nil
  then show ?case by simp
next
  case (Cons n ns)
  have n: "in_range ps n" using Cons.prems(3) by simp
  have 1: "disjointUnion v n ps = Some (Inr (uf_union ps v n))"
    using Cons.prems(1,2) n by (rule disjointUnion_uf_union)
  have 2: "acyclic_parent (uf_union ps v n)" using Cons.prems(1,2) n by (rule acyclic_uf_union)
  have "forM ns (\<lambda>neighbor. disjointUnion v neighbor) (uf_union ps v n)
          = Some (Inr (uf_union_all v ns (uf_union ps v n)))
       \<and> acyclic_parent (uf_union_all v ns (uf_union ps v n))"
    using Cons.prems 2 by (intro Cons.IH) (auto simp: in_range_def)
  then show ?case using 1 by simp
qed

lemma bounded_uf_union_all:
  assumes "acyclic_parent ps" "in_range ps v" "\<forall>n\<in>set ns. in_range ps n"
    "bounded_parent k ps" "v < k" "\<forall>n\<in>set ns. n < k"
  shows "bounded_parent k (uf_union_all v ns ps)"
  using assms
proof (induction ns arbitrary: ps)
  case Nil
  then show ?case by simp
next
  case (Cons n ns)
  have n: "in_range ps n" "n < k" using Cons.prems by auto
  have 2: "acyclic_parent (uf_union ps v n)" using Cons.prems(1,2) n(1) by (rule acyclic_uf_union)
  have 3: "bounded_parent k (uf_union ps v n)"
    using Cons.prems(1,2) n(1) Cons.prems(4,5) n(2) by (rule bounded_uf_union)
  show ?case using Cons.prems 2 3 by (simp add: Cons.IH)
qed

lemma eqv_uf_union_all:
  assumes "acyclic_parent ps" "in_range ps v" "\<forall>n\<in>set ns. in_range ps n"
    "in_range ps l" "in_range ps l'"
  shows "eqv (uf_union_all v ns ps) l l' \<longleftrightarrow>
     eqv ps l l' \<or> (\<exists>m\<in>insert v (set ns). eqv ps l m) \<and> (\<exists>m\<in>insert v (set ns). eqv ps l' m)"
  using assms
proof (induction ns arbitrary: ps)
  case Nil
  then show ?case by (auto intro: eqv_sym eqv_trans)
next
  case (Cons n ns)
  let ?ps1 = "uf_union ps v n"
  have n: "in_range ps n" using Cons.prems(3) by simp
  have ac1: "acyclic_parent ?ps1" using Cons.prems(1,2) n by (rule acyclic_uf_union)
  define A where "A x \<longleftrightarrow> eqv ps x v \<or> eqv ps x n" for x
  define B where "B x \<longleftrightarrow> (\<exists>m\<in>insert v (set (n # ns)). eqv ps x m)" for x
  define B1 where "B1 x \<longleftrightarrow> (\<exists>m\<in>insert v (set ns). eqv ?ps1 x m)" for x
  have e1: "eqv ?ps1 x y \<longleftrightarrow> eqv ps x y \<or> A x \<and> A y" if "in_range ps x" "in_range ps y" for x y
    unfolding A_def using eqv_uf_union[OF Cons.prems(1,2) n that] .
  have AB: "A x \<Longrightarrow> B x" for x unfolding A_def B_def by auto
  have Av: "A v" unfolding A_def by simp
  have An: "A n" unfolding A_def by simp
  have rng: "\<And>m. m \<in> insert v (set (n # ns)) \<Longrightarrow> in_range ps m" using Cons.prems(2,3) by auto
  have B1B: "B1 x \<longleftrightarrow> B x" if x: "in_range ps x" for x
  proof
    assume "B1 x"
    then obtain m where m: "m \<in> insert v (set ns)" "eqv ?ps1 x m" unfolding B1_def by blast
    then have "in_range ps m" using rng by auto
    with m(2) x have "eqv ps x m \<or> A x \<and> A m" using e1 by simp
    then show "B x" using m(1) AB unfolding B_def by auto
  next
    assume "B x"
    then obtain m where m: "m \<in> insert v (set (n # ns))" "eqv ps x m" unfolding B_def by blast
    have mr: "in_range ps m" using rng m(1) by simp
    have vr: "in_range ps v" by (rule Cons.prems(2))
    show "B1 x"
    proof (cases "m = n")
      case True
      then have "A x" using m(2) unfolding A_def by simp
      then have "eqv ?ps1 x v" using e1[OF x vr] Av by simp
      then show ?thesis unfolding B1_def by blast
    next
      case False
      then have "m \<in> insert v (set ns)" using m(1) by auto
      moreover have "eqv ?ps1 x m" using e1[OF x mr] m(2) by simp
      ultimately show ?thesis unfolding B1_def by blast
    qed
  qed
  have "eqv (uf_union_all v ns ?ps1) l l' \<longleftrightarrow> eqv ?ps1 l l' \<or> B1 l \<and> B1 l'"
    unfolding B1_def using Cons.prems ac1 by (intro Cons.IH) auto
  also have "\<dots> \<longleftrightarrow> (eqv ps l l' \<or> A l \<and> A l') \<or> B l \<and> B l'"
    using e1[OF Cons.prems(4,5)] B1B[OF Cons.prems(4)] B1B[OF Cons.prems(5)] by simp
  also have "\<dots> \<longleftrightarrow> eqv ps l l' \<or> B l \<and> B l'" using AB by blast
  finally show ?case unfolding B_def by simp
qed

subsection \<open>Adding a vertex to a symmetric graph\<close>

lemma rtrancl_isolated_right:
  assumes "(p, c) \<in> E\<^sup>*" "c \<notin> Range E"
  shows "p = c"
  using assms by (cases rule: rtranclE) auto

lemma rtrancl_isolated_left:
  assumes "(c, q) \<in> E\<^sup>*" "c \<notin> Domain E"
  shows "c = q"
  using assms by (cases rule: converse_rtranclE) auto

lemma rtrancl_add_star:
  fixes E :: "('v \<times> 'v) set"
  assumes sym: "sym E" and iso: "c \<notin> Field E"
  shows "(p, q) \<in> (E \<union> {c} \<times> N \<union> N \<times> {c})\<^sup>* \<longleftrightarrow>
         (p, q) \<in> E\<^sup>* \<or> ((p = c \<or> (\<exists>n\<in>N. (p, n) \<in> E\<^sup>*)) \<and> (q = c \<or> (\<exists>n\<in>N. (q, n) \<in> E\<^sup>*)))"
    (is "(p, q) \<in> ?E'\<^sup>* \<longleftrightarrow> ?R p q")
proof
  define hub where "hub r \<longleftrightarrow> r = c \<or> (\<exists>n\<in>N. (r, n) \<in> E\<^sup>*)" for r
  have symst: "\<And>a b. (a, b) \<in> E\<^sup>* \<Longrightarrow> (b, a) \<in> E\<^sup>*"
    using sym_rtrancl[OF sym] by (auto dest: symD)
  have cD: "c \<notin> Domain E" and cR: "c \<notin> Range E" using iso by (auto simp: Field_def)
  {
    assume "(p, q) \<in> ?E'\<^sup>*"
    then have "(p, q) \<in> E\<^sup>* \<or> (hub p \<and> hub q)"
    proof (induction rule: rtrancl_induct)
      case base
      then show ?case by simp
    next
      case (step q r)
      from step.hyps(2) consider (E) "(q, r) \<in> E" | (out) "q = c" "r \<in> N" | (inn) "q \<in> N" "r = c"
        by auto
      then show ?case
      proof cases
        case E
        from step.IH show ?thesis
        proof
          assume "(p, q) \<in> E\<^sup>*"
          with E have "(p, r) \<in> E\<^sup>*" by (rule rtrancl_into_rtrancl[rotated])
          then show ?thesis by simp
        next
          assume h: "hub p \<and> hub q"
          have "q \<noteq> c" using E cD by auto
          with h obtain n where n: "n \<in> N" "(q, n) \<in> E\<^sup>*" unfolding hub_def by auto
          have "(r, q) \<in> E" using E sym by (auto dest: symD)
          with n(2) have "(r, n) \<in> E\<^sup>*" by auto
          with n(1) have "hub r" unfolding hub_def by auto
          with h show ?thesis by simp
        qed
      next
        case out
        have "hub p" using step.IH out(1) rtrancl_isolated_right[OF _ cR] unfolding hub_def by auto
        moreover have "hub r" using out(2) unfolding hub_def by auto
        ultimately show ?thesis by simp
      next
        case inn
        have "hub p" using step.IH inn(1) unfolding hub_def by auto
        moreover have "hub r" using inn(2) unfolding hub_def by simp
        ultimately show ?thesis by simp
      qed
    qed
    then show "?R p q" unfolding hub_def .
  }
  {
    assume R: "?R p q"
    have sub: "\<And>a b. (a, b) \<in> E\<^sup>* \<Longrightarrow> (a, b) \<in> ?E'\<^sup>*"
      by (rule rtrancl_mono[THEN subsetD]) auto
    have toc: "(r, c) \<in> ?E'\<^sup>*" if "r = c \<or> (\<exists>n\<in>N. (r, n) \<in> E\<^sup>*)" for r
      using that
    proof
      assume "r = c" then show ?thesis by simp
    next
      assume "\<exists>n\<in>N. (r, n) \<in> E\<^sup>*"
      then obtain n where n: "n \<in> N" "(r, n) \<in> E\<^sup>*" by auto
      have "(n, c) \<in> ?E'" using n(1) by auto
      with sub[OF n(2)] show ?thesis by (rule rtrancl_into_rtrancl)
    qed
    have fromc: "(c, r) \<in> ?E'\<^sup>*" if "r = c \<or> (\<exists>n\<in>N. (r, n) \<in> E\<^sup>*)" for r
      using that
    proof
      assume "r = c" then show ?thesis by simp
    next
      assume "\<exists>n\<in>N. (r, n) \<in> E\<^sup>*"
      then obtain n where n: "n \<in> N" "(r, n) \<in> E\<^sup>*" by auto
      have "(c, n) \<in> ?E'" using n(1) by auto
      moreover have "(n, r) \<in> ?E'\<^sup>*" using sub[OF symst[OF n(2)]] .
      ultimately show ?thesis by (rule converse_rtrancl_into_rtrancl)
    qed
    from R show "(p, q) \<in> ?E'\<^sup>*"
    proof
      assume "(p, q) \<in> E\<^sup>*" then show ?thesis by (rule sub)
    next
      assume "(p = c \<or> (\<exists>n\<in>N. (p, n) \<in> E\<^sup>*)) \<and> (q = c \<or> (\<exists>n\<in>N. (q, n) \<in> E\<^sup>*))"
      then have "(p, c) \<in> ?E'\<^sup>*" "(c, q) \<in> ?E'\<^sup>*" using toc fromc by auto
      then show ?thesis by (rule rtrancl_trans)
    qed
  }
qed

subsection \<open>Raster order and adjacency\<close>

lemma prior_positions_iff: "n \<in> set (prior_positions c) \<longleftrightarrow> adj8 c n \<and> earlier n c"
proof (cases c; cases n)
  fix y x y' x' assume c: "c = (y, x)" and n: "n = (y', x')"
  have "(y', x') \<in> set (prior_positions (y, x)) \<longleftrightarrow>
        (y > 0 \<and> y' = y - 1 \<and> (x' = x \<or> (x > 0 \<and> x' = x - 1) \<or> x' = x + 1))
        \<or> (x > 0 \<and> y' = y \<and> x' = x - 1)"
    by (auto simp: prior_positions_def)
  also have "\<dots> \<longleftrightarrow> adj8 (y, x) (y', x') \<and> earlier (y', x') (y, x)"
    unfolding adj8_def earlier_def fst_conv snd_conv prod.inject by arith
  finally show ?thesis unfolding c n .
qed

lemma prior_nbrs_iff: "n \<in> prior_nbrs img c \<longleftrightarrow> fg img n \<and> adj8 c n \<and> earlier n c"
  by (auto simp: prior_nbrs_def prior_positions_iff)

lemma adj8_sym: "adj8 p q \<Longrightarrow> adj8 q p"
  by (auto simp: adj8_def)

lemma earlier_irrefl [simp]: "\<not> earlier c c"
  by (simp add: earlier_def)

lemma earlier_trans: "earlier p q \<Longrightarrow> earlier q r \<Longrightarrow> earlier p r"
  by (auto simp: earlier_def)

lemma earlier_Suc: "earlier p (y, Suc x) \<longleftrightarrow> earlier p (y, x) \<or> p = (y, x)"
  by (cases p) (auto simp: earlier_def)

lemma earlier_row_end: "snd p < w \<Longrightarrow> earlier p (y, w) \<longleftrightarrow> earlier p (Suc y, 0)"
  by (cases p) (auto simp: earlier_def)

lemma earlier_all: "in_image img p \<Longrightarrow> earlier p (rows img, 0)"
  by (simp add: earlier_def in_image_def)

lemma earlier_start [simp]: "\<not> earlier p (0, 0)"
  by (simp add: earlier_def)

lemma sym_edges_upto: "sym (edges_upto img c)"
  by (auto simp: sym_def edges_upto_def edges8_def adj8_sym)

lemma not_in_Field_edges_upto: "c \<notin> Field (edges_upto img c)"
  by (auto simp: Field_def edges_upto_def)

lemma edges_upto_Suc_bg:
  "\<not> fg img (y, x) \<Longrightarrow> edges_upto img (y, Suc x) = edges_upto img (y, x)"
  by (auto simp: edges_upto_def earlier_Suc edges8_def)

lemma edges_upto_Suc_fg:
  assumes "fg img (y, x)"
  shows "edges_upto img (y, Suc x) =
     edges_upto img (y, x) \<union> {(y, x)} \<times> prior_nbrs img (y, x) \<union> prior_nbrs img (y, x) \<times> {(y, x)}"
    (is "?L = ?R")
proof -
  let ?c = "(y, x)"
  have ne: "\<And>p q. adj8 p q \<Longrightarrow> p \<noteq> q" by (simp add: adj8_def)
  have "(p, q) \<in> ?L \<longleftrightarrow> (p, q) \<in> ?R" for p q
  proof -
    have L: "(p, q) \<in> ?L \<longleftrightarrow> fg img p \<and> fg img q \<and> adj8 p q
                \<and> (earlier p ?c \<or> p = ?c) \<and> (earlier q ?c \<or> q = ?c)"
      by (simp add: edges_upto_def edges8_def earlier_Suc)
    have R: "(p, q) \<in> ?R \<longleftrightarrow> (fg img p \<and> fg img q \<and> adj8 p q \<and> earlier p ?c \<and> earlier q ?c)
                \<or> (p = ?c \<and> fg img q \<and> adj8 ?c q \<and> earlier q ?c)
                \<or> (q = ?c \<and> fg img p \<and> adj8 ?c p \<and> earlier p ?c)"
      by (simp add: edges_upto_def edges8_def prior_nbrs_iff) blast
    show ?thesis unfolding L R using assms ne[of p q] adj8_sym[of p q] adj8_sym[of q p]
      by blast
  qed
  then show ?thesis by auto
qed

lemma edges_upto_row_end: "edges_upto img (y, cols img) = edges_upto img (Suc y, 0)"
  by (auto simp: edges_upto_def edges8_def fg_def in_image_def earlier_row_end)

lemma edges_upto_final: "edges_upto img (rows img, 0) = edges8 img"
  by (auto simp: edges_upto_def edges8_def fg_def earlier_all)

lemma fresh_isolated:
  assumes "prior_nbrs img c = {}"
  shows "edges_upto img (fst c, Suc (snd c)) = edges_upto img c"
proof (cases "fg img c")
  case True
  then show ?thesis using edges_upto_Suc_fg[of img "fst c" "snd c"] assms by simp
next
  case False
  then show ?thesis using edges_upto_Suc_bg[of img "fst c" "snd c"] by simp
qed

subsection \<open>Reading and writing the label image\<close>

lemma needs_fresh_iff: "needs_fresh img p \<longleftrightarrow> fg img p \<and> prior_nbrs img p = {}"
  by (auto simp: needs_fresh_def prior_nbrs_def)

lemma shape_ok_set_px: "shape_ok img result \<Longrightarrow> shape_ok img (set_px result p v)"
proof (cases "fst p < length result")
  case True
  assume "shape_ok img result"
  then show ?thesis using True by (auto simp: shape_ok_def set_px_def nth_list_update)
next
  case False
  assume "shape_ok img result"
  then show ?thesis using False by (simp add: shape_ok_def set_px_def)
qed

lemma lab_of_set_px:
  assumes "shape_ok img result" "in_image img p" "in_image img q"
  shows "lab_of (set_px result p v) q = (if q = p then v else lab_of result q)"
proof -
  have l: "fst p < length result" "snd p < length (result ! fst p)"
    using assms by (auto simp: shape_ok_def in_image_def)
  show ?thesis
  proof (cases "fst q = fst p")
    case True
    then show ?thesis using l
      by (cases p; cases q) (auto simp: lab_of_def set_px_def nth_list_update)
  next
    case False
    then show ?thesis using l
      by (cases p; cases q) (auto simp: lab_of_def set_px_def nth_list_update)
  qed
qed

lemma fg_in_image: "fg img p \<Longrightarrow> in_image img p"
  by (simp add: fg_def)

lemma uint_pixel_zero: "uint (pixel img p) = 0 \<longleftrightarrow> pixel img p = 0"
  by (simp add: uint_0_iff)

lemma inv_labels_current:
  assumes "inv_labels img c result nl" "in_image img c"
  shows "lab_of result c \<noteq> 0 \<longleftrightarrow> fg img c"
proof -
  have "in_image img c \<longrightarrow> (if earlier c c
         then (if fg img c then 1 \<le> lab_of result c \<and> lab_of result c < nl else lab_of result c = 0)
         else lab_of result c = uint (pixel img c))"
    using assms(1) unfolding inv_labels_def by blast
  then have "lab_of result c = uint (pixel img c)"
    using assms(2) by simp
  then show ?thesis using assms(2) by (simp add: fg_def uint_0_iff)
qed

lemma inv_labels_earlier:
  assumes "inv_labels img c result nl" "in_image img p" "earlier p c"
  shows "lab_of result p \<noteq> 0 \<longleftrightarrow> fg img p"
    and "fg img p \<Longrightarrow> 1 \<le> lab_of result p \<and> lab_of result p < nl"
proof -
  have "in_image img p \<longrightarrow> (if earlier p c
         then (if fg img p then 1 \<le> lab_of result p \<and> lab_of result p < nl else lab_of result p = 0)
         else lab_of result p = uint (pixel img p))"
    using assms(1) unfolding inv_labels_def by blast
  then have *: "if fg img p then 1 \<le> lab_of result p \<and> lab_of result p < nl else lab_of result p = 0"
    using assms(2,3) by simp
  show "lab_of result p \<noteq> 0 \<longleftrightarrow> fg img p" using * by (auto split: if_splits)
  show "fg img p \<Longrightarrow> 1 \<le> lab_of result p \<and> lab_of result p < nl" using * by simp
qed

lemma min_element_Min:
  "xs \<noteq> [] \<Longrightarrow> min_element xs < length xs \<and> xs ! min_element xs = Min (set xs)"
proof (induction xs rule: min_element.induct)
  case 1
  then show ?case by simp
next
  case (2 x)
  then show ?case by simp
next
  case (3 x v va)
  define xs where "xs = v # va"
  define i where "i = min_element xs"
  have ne: "xs \<noteq> []" by (simp add: xs_def)
  have IH: "i < length xs" "xs ! i = Min (set xs)"
    using 3 unfolding xs_def i_def by simp_all
  have me: "min_element (x # xs) = (if xs ! i < x then Suc i else 0)"
    unfolding xs_def i_def by (simp add: Let_def)
  have "Min (insert x (set xs)) = min x (Min (set xs))"
    using ne by (intro Min_insert) auto
  then have M: "Min (set (x # xs)) = min x (xs ! i)" using IH(2) by simp
  have "min_element (x # xs) < length (x # xs) \<and> (x # xs) ! min_element (x # xs) = Min (set (x # xs))"
    unfolding me M using IH(1) by (simp add: min_def)
  then show ?case unfolding xs_def .
qed

subsection \<open>Pass 1, one pixel: the parts of the invariant\<close>

lemma set_unique_sorted: "set (if L \<noteq> [] then remdups_adj (sort L) else []) = set (L :: int list)"
  by auto

lemma prior_nbrs_by_labels:
  assumes il: "inv_labels img c result nl"
  shows "prior_nbrs img c = {n \<in> set (prior_positions c). in_image img n \<and> lab_of result n \<noteq> 0}"
proof -
  have "fg img n \<longleftrightarrow> in_image img n \<and> lab_of result n \<noteq> 0" if "n \<in> set (prior_positions c)" for n
  proof -
    have e: "earlier n c" using that by (simp add: prior_positions_iff)
    show ?thesis using inv_labels_earlier(1)[OF il _ e] fg_in_image by blast
  qed
  then show ?thesis unfolding prior_nbrs_def by blast
qed

lemma image_filter_set: "f ` {n \<in> set ps. K n} = set (map f (filter K ps))"
  by auto

lemma getNeighbors_list:
  assumes y: "y < rows img" and x: "x < cols img"
  shows "getNeighbors (result ! y) (map_option (\<lambda>py. result ! py) (if y = 0 then None else Some (y - 1)))
                x y (cols img)
         = (let L = map (lab_of result)
                     (filter (\<lambda>n. in_image img n \<and> lab_of result n \<noteq> 0) (prior_positions (y, x)))
            in if L \<noteq> [] then remdups_adj (sort L) else [])"
proof -
  have xc: "x < cols img - 1 \<longleftrightarrow> Suc x < cols img" using x by auto
  have L: "(case (map_option (\<lambda>py. result ! py) (if y = 0 then None else Some (y - 1))) of
           None \<Rightarrow> []
         | Some prev \<Rightarrow>
             (if prev ! x \<noteq> 0 then [prev ! x] else []) @
             (if x > 0 \<and> prev ! (x - 1) \<noteq> 0 then [prev ! (x - 1)] else []) @
             (if x < cols img - 1 \<and> prev ! (x + 1) \<noteq> 0 then [prev ! (x + 1)] else [])) @
        (if x > 0 \<and> result ! y ! (x - 1) \<noteq> 0 then [result ! y ! (x - 1)] else [])
      = map (lab_of result)
          (filter (\<lambda>n. in_image img n \<and> lab_of result n \<noteq> 0) (prior_positions (y, x)))"
  proof (cases "y = 0")
    case True
    show ?thesis
    proof (cases "x = 0")
      case True
      with \<open>y = 0\<close> show ?thesis by (simp add: prior_positions_def)
    next
      case False
      then have "x - Suc 0 < cols img" using x by auto
      with False \<open>y = 0\<close> x y show ?thesis
        by (simp add: prior_positions_def in_image_def lab_of_def)
    qed
  next
    case False
    then have y1: "y - Suc 0 < rows img" "0 < y" using y by auto
    show ?thesis
    proof (cases "x = 0")
      case True
      with y1 x y xc show ?thesis
        by (simp add: prior_positions_def in_image_def lab_of_def)
    next
      case False
      then have x1: "x - Suc 0 < cols img" using x by auto
      from False y1 x y xc x1 show ?thesis
        by (simp add: prior_positions_def in_image_def lab_of_def)
    qed
  qed
  show ?thesis unfolding getNeighbors_def L ..
qed

lemma getNeighbors_set:
  assumes sh: "shape_ok img result" and il: "inv_labels img (y, x) result nl"
    and y: "y < rows img" and x: "x < cols img"
  shows "set (getNeighbors (result ! y) (map_option (\<lambda>py. result ! py) (if y = 0 then None else Some (y - 1)))
                x y (cols img))
         = lab_of result ` prior_nbrs img (y, x)"
  unfolding getNeighbors_list[OF y x] Let_def set_unique_sorted prior_nbrs_by_labels[OF il] image_filter_set ..

lemma inv_labels_step_bg:
  assumes il: "inv_labels img (y, x) result nl" and c: "in_image img (y, x)" and bg: "\<not> fg img (y, x)"
  shows "inv_labels img (y, Suc x) result nl"
  unfolding inv_labels_def
proof (intro allI impI)
  fix p assume p: "in_image img p"
  have old: "if earlier p (y, x)
         then (if fg img p then 1 \<le> lab_of result p \<and> lab_of result p < nl else lab_of result p = 0)
         else lab_of result p = uint (pixel img p)"
    using il p unfolding inv_labels_def by blast
  show "if earlier p (y, Suc x)
         then (if fg img p then 1 \<le> lab_of result p \<and> lab_of result p < nl else lab_of result p = 0)
         else lab_of result p = uint (pixel img p)"
  proof (cases "p = (y, x)")
    case True
    have "pixel img p = 0" using bg c True by (simp add: fg_def)
    then show ?thesis using old True bg by (simp add: earlier_Suc)
  next
    case False
    then show ?thesis using old by (simp add: earlier_Suc)
  qed
qed

lemma inv_labels_step_set:
  assumes sh: "shape_ok img result" and il: "inv_labels img (y, x) result nl"
    and c: "fg img (y, x)" and v: "1 \<le> v" "v < nl'" and nl: "nl \<le> nl'"
  shows "inv_labels img (y, Suc x) (set_px result (y, x) v) nl'"
  unfolding inv_labels_def
proof (intro allI impI)
  fix p assume p: "in_image img p"
  have ci: "in_image img (y, x)" using c by (rule fg_in_image)
  have old: "if earlier p (y, x)
         then (if fg img p then 1 \<le> lab_of result p \<and> lab_of result p < nl else lab_of result p = 0)
         else lab_of result p = uint (pixel img p)"
    using il p unfolding inv_labels_def by blast
  have lab: "lab_of (set_px result (y, x) v) p = (if p = (y, x) then v else lab_of result p)"
    using sh ci p by (rule lab_of_set_px)
  show "if earlier p (y, Suc x)
         then (if fg img p then 1 \<le> lab_of (set_px result (y, x) v) p \<and> lab_of (set_px result (y, x) v) p < nl'
               else lab_of (set_px result (y, x) v) p = 0)
         else lab_of (set_px result (y, x) v) p = uint (pixel img p)"
  proof (cases "p = (y, x)")
    case True
    then show ?thesis using lab c v by (simp add: earlier_Suc)
  next
    case False
    then show ?thesis using old lab nl by (auto simp add: earlier_Suc)
  qed
qed

lemma bounded_parent_mono: "bounded_parent n ps \<Longrightarrow> n \<le> n' \<Longrightarrow> bounded_parent n' ps"
  by (fastforce simp: bounded_parent_def)

lemma inv_uf_step_fresh:
  assumes "inv_uf mc nl linked" "nl + 1 < mc"
  shows "inv_uf mc (nl + 1) linked"
  using assms bounded_parent_mono[of nl linked "nl + 1"] by (simp add: inv_uf_def)

lemma inv_uf_in_range:
  assumes "inv_uf mc nl linked" "1 \<le> l" "l < nl"
  shows "in_range linked l"
  using assms by (auto simp: inv_uf_def in_range_def)

lemma inv_uf_step_merge:
  assumes uf: "inv_uf mc nl linked" and v: "1 \<le> v" "v < nl" and ns: "\<forall>n\<in>set ns. 1 \<le> n \<and> n < nl"
  shows "forM ns (\<lambda>neighbor. disjointUnion v neighbor) linked = Some (Inr (uf_union_all v ns linked))"
    and "inv_uf mc nl (uf_union_all v ns linked)"
proof -
  have ac: "acyclic_parent linked" and bd: "bounded_parent nl linked" using uf by (auto simp: inv_uf_def)
  have vr: "in_range linked v" using uf v by (rule inv_uf_in_range)
  have nr: "\<forall>n\<in>set ns. in_range linked n" using uf ns by (auto intro: inv_uf_in_range)
  from forM_disjointUnion[OF ac vr nr]
  have fm: "forM ns (\<lambda>neighbor. disjointUnion v neighbor) linked = Some (Inr (uf_union_all v ns linked))"
    and ac': "acyclic_parent (uf_union_all v ns linked)" by auto
  show "forM ns (\<lambda>neighbor. disjointUnion v neighbor) linked = Some (Inr (uf_union_all v ns linked))"
    by (rule fm)
  have "bounded_parent nl (uf_union_all v ns linked)"
    using ac vr nr bd v(2) ns by (intro bounded_uf_union_all) auto
  then show "inv_uf mc nl (uf_union_all v ns linked)"
    using uf ac' by (simp add: inv_uf_def)
qed

lemma finite_fg: "finite {p. fg img p}"
proof -
  have "{p. fg img p} \<subseteq> {..<rows img} \<times> {..<cols img}"
    by (auto simp: fg_def in_image_def)
  then show ?thesis by (rule finite_subset) simp
qed

lemma finite_fresh: "finite {p. needs_fresh img p \<and> P p}"
  by (rule finite_subset[OF _ finite_fg[of img]]) (auto simp: needs_fresh_def)

lemma fresh_set_Suc:
  "{p. needs_fresh img p \<and> earlier p (y, Suc x)} =
     {p. needs_fresh img p \<and> earlier p (y, x)} \<union> (if needs_fresh img (y, x) then {(y, x)} else {})"
  by (auto simp: earlier_Suc)

lemma inv_count_step_same:
  assumes "inv_count img (y, x) nl" "\<not> needs_fresh img (y, x)"
  shows "inv_count img (y, Suc x) nl"
  using assms by (simp add: inv_count_def fresh_set_Suc)

lemma inv_count_step_fresh:
  assumes "inv_count img (y, x) nl" "needs_fresh img (y, x)"
  shows "inv_count img (y, Suc x) (nl + 1)"
proof -
  have "card (insert (y, x) {p. needs_fresh img p \<and> earlier p (y, x)})
        = Suc (card {p. needs_fresh img p \<and> earlier p (y, x)})"
    by (rule card_insert_disjoint) (auto simp: finite_fresh)
  then show ?thesis using assms by (simp add: inv_count_def fresh_set_Suc)
qed

lemma prior_nbrs_earlier: "n \<in> prior_nbrs img p \<Longrightarrow> earlier n p \<and> fg img n"
  by (simp add: prior_nbrs_iff)

lemma inv_min_step_bg:
  assumes "inv_min img (y, x) result" "\<not> fg img (y, x)"
  shows "inv_min img (y, Suc x) result"
  using assms unfolding inv_min_def earlier_Suc by blast

lemma inv_min_step_set:
  assumes sh: "shape_ok img result" and im: "inv_min img (y, x) result" and c: "in_image img (y, x)"
    and v: "prior_nbrs img (y, x) \<noteq> {} \<Longrightarrow> v = Min (lab_of result ` prior_nbrs img (y, x))"
  shows "inv_min img (y, Suc x) (set_px result (y, x) v)"
  unfolding inv_min_def
proof (intro allI impI, elim conjE)
  fix p assume p: "fg img p" "earlier p (y, Suc x)" "prior_nbrs img p \<noteq> {}"
  have pc: "earlier p (y, x) \<or> p = (y, x)" using p(2) by (simp add: earlier_Suc)
  have same: "lab_of (set_px result (y, x) v) n = lab_of result n" if "n \<in> prior_nbrs img p" for n
  proof -
    have "earlier n p" "fg img n" using that by (auto dest: prior_nbrs_earlier)
    then have "earlier n (y, x)" using pc by (auto intro: earlier_trans)
    then have "n \<noteq> (y, x)" by auto
    then show ?thesis using lab_of_set_px[OF sh c fg_in_image[OF \<open>fg img n\<close>]] by simp
  qed
  then have img_eq: "lab_of (set_px result (y, x) v) ` prior_nbrs img p = lab_of result ` prior_nbrs img p"
    by (intro image_cong) auto
  show "lab_of (set_px result (y, x) v) p = Min (lab_of (set_px result (y, x) v) ` prior_nbrs img p)"
  proof (cases "p = (y, x)")
    case True
    then show ?thesis using v p(3) img_eq lab_of_set_px[OF sh c c] by simp
  next
    case False
    then have "earlier p (y, x)" using pc by simp
    then have "lab_of result p = Min (lab_of result ` prior_nbrs img p)"
      using im p unfolding inv_min_def by blast
    then show ?thesis using False img_eq lab_of_set_px[OF sh c fg_in_image[OF p(1)]] by simp
  qed
qed

lemma inv_connD:
  assumes "inv_conn img c result linked" "fg img p" "earlier p c" "fg img q" "earlier q c"
  shows "eqv linked (lab_of result p) (lab_of result q) \<longleftrightarrow> (p, q) \<in> (edges_upto img c)\<^sup>*"
  using assms unfolding inv_conn_def by blast

lemma inv_conn_step_bg:
  assumes ic: "inv_conn img (y, x) result linked" and bg: "\<not> fg img (y, x)"
  shows "inv_conn img (y, Suc x) result linked"
proof -
  have e: "fg img p \<Longrightarrow> earlier p (y, Suc x) \<Longrightarrow> earlier p (y, x)" for p
    using bg by (auto simp: earlier_Suc)
  show ?thesis
    unfolding inv_conn_def edges_upto_Suc_bg[OF bg]
  proof (intro allI impI, elim conjE)
    fix p q
    assume "fg img p" "earlier p (y, Suc x)" "fg img q" "earlier q (y, Suc x)"
    then show "eqv linked (lab_of result p) (lab_of result q) \<longleftrightarrow> (p, q) \<in> (edges_upto img (y, x))\<^sup>*"
      using inv_connD[OF ic] e by simp
  qed
qed

lemma edges_star_isolated:
  "(c, q) \<in> (edges_upto img c)\<^sup>* \<longleftrightarrow> c = q" "(p, c) \<in> (edges_upto img c)\<^sup>* \<longleftrightarrow> p = c"
proof -
  have D: "c \<notin> Domain (edges_upto img c)" and R: "c \<notin> Range (edges_upto img c)"
    using not_in_Field_edges_upto[of c img] by (auto simp: Field_def)
  have 1: "(c, q) \<in> (edges_upto img c)\<^sup>* \<Longrightarrow> c = q"
    by (rule rtrancl_isolated_left[OF _ D])
  have 2: "(p, c) \<in> (edges_upto img c)\<^sup>* \<Longrightarrow> p = c"
    by (rule rtrancl_isolated_right[OF _ R])
  show "(c, q) \<in> (edges_upto img c)\<^sup>* \<longleftrightarrow> c = q" using 1 by auto
  show "(p, c) \<in> (edges_upto img c)\<^sup>* \<longleftrightarrow> p = c" using 2 by auto
qed

lemma fresh_label_is_root:
  assumes uf: "inv_uf mc nl linked" and cap: "nl + 1 < mc"
  shows "root_of linked nl = nl"
proof -
  have i: "nat nl < length linked" "0 \<le> nl" using uf cap by (auto simp: inv_uf_def)
  have "linked ! nat nl < nl" using uf i by (auto simp: inv_uf_def bounded_parent_def)
  moreover have "linked ! nat nl = 0 \<or> int (nat nl) < linked ! nat nl"
    using uf i unfolding inv_uf_def acyclic_parent_def by blast
  ultimately have "linked ! nat nl = 0" using i by auto
  then show ?thesis using i by (intro root_of_root) auto
qed

lemma old_root_below:
  assumes uf: "inv_uf mc nl linked" and l: "1 \<le> l" "l < nl"
  shows "root_of linked l < nl"
proof -
  have "in_range linked l" using uf l by (rule inv_uf_in_range)
  then show ?thesis using uf l by (intro root_of_bounded) (auto simp: inv_uf_def)
qed

lemma inv_conn_step_fresh:
  assumes sh: "shape_ok img result" and il: "inv_labels img (y, x) result nl"
    and uf: "inv_uf mc nl linked" and ic: "inv_conn img (y, x) result linked"
    and c: "fg img (y, x)" and N: "prior_nbrs img (y, x) = {}" and cap: "nl + 1 < mc"
  shows "inv_conn img (y, Suc x) (set_px result (y, x) nl) linked"
  unfolding inv_conn_def
proof (intro allI impI, elim conjE)
  fix p q
  assume p: "fg img p" "earlier p (y, Suc x)" and q: "fg img q" "earlier q (y, Suc x)"
  let ?c = "(y, x)"
  let ?lab' = "lab_of (set_px result ?c nl)"
  have E: "edges_upto img (y, Suc x) = edges_upto img ?c"
    using fresh_isolated[of img ?c] N by simp
  have ci: "in_image img ?c" using c by (rule fg_in_image)
  have lab: "\<And>r. fg img r \<Longrightarrow> ?lab' r = (if r = ?c then nl else lab_of result r)"
    by (rule lab_of_set_px[OF sh ci fg_in_image])
  have old: "root_of linked (lab_of result r) < nl" if r: "fg img r" "earlier r ?c" for r
  proof -
    have "1 \<le> lab_of result r \<and> lab_of result r < nl"
      by (rule inv_labels_earlier(2)[OF il fg_in_image[OF r(1)] r(2) r(1)])
    then show ?thesis using old_root_below[OF uf] by simp
  qed
  have new: "root_of linked nl = nl" using uf cap by (rule fresh_label_is_root)
  have pc: "earlier p ?c \<or> p = ?c" and qc: "earlier q ?c \<or> q = ?c"
    using p(2) q(2) by (simp_all add: earlier_Suc)
  show "eqv linked (?lab' p) (?lab' q) \<longleftrightarrow> (p, q) \<in> (edges_upto img (y, Suc x))\<^sup>*"
  proof (cases "p = ?c")
    case pT: True
    show ?thesis
    proof (cases "q = ?c")
      case True
      with pT show ?thesis by simp
    next
      case False
      then have "earlier q ?c" using qc by simp
      then have "root_of linked (lab_of result q) \<noteq> nl" using old[OF q(1)] by fastforce
      then show ?thesis using pT False lab[OF p(1)] lab[OF q(1)] new
        by (simp add: E edges_star_isolated eqv_def)
    qed
  next
    case pF: False
    then have ep: "earlier p ?c" using pc by simp
    show ?thesis
    proof (cases "q = ?c")
      case True
      have "root_of linked (lab_of result p) \<noteq> nl" using old[OF p(1) ep] by simp
      then show ?thesis using pF True lab[OF p(1)] lab[OF q(1)] new
        by (simp add: E edges_star_isolated eqv_def)
    next
      case False
      then have eq: "earlier q ?c" using qc by simp
      have "eqv linked (lab_of result p) (lab_of result q) \<longleftrightarrow> (p, q) \<in> (edges_upto img ?c)\<^sup>*"
        by (rule inv_connD[OF ic p(1) ep q(1) eq])
      then show ?thesis using pF False lab[OF p(1)] lab[OF q(1)] by (simp add: E)
    qed
  qed
qed

lemma inv_conn_step_merge:
  assumes sh: "shape_ok img result" and il: "inv_labels img (y, x) result nl"
    and uf: "inv_uf mc nl linked" and ic: "inv_conn img (y, x) result linked"
    and c: "fg img (y, x)" and ns: "set ns = lab_of result ` prior_nbrs img (y, x)" and v: "v \<in> set ns"
  shows "inv_conn img (y, Suc x) (set_px result (y, x) v) (uf_union_all v ns linked)"
  unfolding inv_conn_def
proof (intro allI impI, elim conjE)
  fix p q
  assume p: "fg img p" "earlier p (y, Suc x)" and q: "fg img q" "earlier q (y, Suc x)"
  let ?c = "(y, x)"
  let ?N = "prior_nbrs img ?c"
  let ?E = "edges_upto img ?c"
  let ?lab' = "lab_of (set_px result ?c v)"
  define hub where "hub r \<longleftrightarrow> r = ?c \<or> (\<exists>n\<in>?N. (r, n) \<in> ?E\<^sup>*)" for r
  define H where "H l \<longleftrightarrow> (\<exists>m\<in>insert v (set ns). eqv linked l m)" for l
  have ci: "in_image img ?c" using c by (rule fg_in_image)
  have lab: "\<And>r. fg img r \<Longrightarrow> ?lab' r = (if r = ?c then v else lab_of result r)"
    by (rule lab_of_set_px[OF sh ci fg_in_image])
  have Nold: "\<And>n. n \<in> ?N \<Longrightarrow> fg img n \<and> earlier n ?c" by (simp add: prior_nbrs_iff)
  have oldr: "in_range linked (lab_of result r)" if r: "fg img r" "earlier r ?c" for r
  proof -
    have "1 \<le> lab_of result r \<and> lab_of result r < nl"
      by (rule inv_labels_earlier(2)[OF il fg_in_image[OF r(1)] r(2) r(1)])
    then show ?thesis using inv_uf_in_range[OF uf] by simp
  qed
  have nsr: "\<forall>n\<in>set ns. in_range linked n" using ns Nold oldr by auto
  have vr: "in_range linked v" using nsr v by simp
  have ac: "acyclic_parent linked" using uf by (simp add: inv_uf_def)
  have ins: "insert v (set ns) = lab_of result ` ?N" using v ns by auto
  have eqv': "\<And>l l'. in_range linked l \<Longrightarrow> in_range linked l' \<Longrightarrow>
      eqv (uf_union_all v ns linked) l l' \<longleftrightarrow> eqv linked l l' \<or> H l \<and> H l'"
    unfolding H_def by (rule eqv_uf_union_all[OF ac vr nsr])
  have graph: "\<And>a b. (a, b) \<in> (edges_upto img (y, Suc x))\<^sup>* \<longleftrightarrow> (a, b) \<in> ?E\<^sup>* \<or> hub a \<and> hub b"
    unfolding hub_def edges_upto_Suc_fg[OF c]
    by (rule rtrancl_add_star[OF sym_edges_upto not_in_Field_edges_upto])
  have old_conn: "\<And>a b. fg img a \<Longrightarrow> earlier a ?c \<Longrightarrow> fg img b \<Longrightarrow> earlier b ?c \<Longrightarrow>
      eqv linked (lab_of result a) (lab_of result b) \<longleftrightarrow> (a, b) \<in> ?E\<^sup>*"
    by (rule inv_connD[OF ic])
  have Hv: "H v" unfolding H_def by auto
  have Hold: "H (lab_of result r) \<longleftrightarrow> hub r" if r: "fg img r" "earlier r ?c" for r
  proof -
    have "r \<noteq> ?c" using r(2) by auto
    moreover have "H (lab_of result r) \<longleftrightarrow> (\<exists>n\<in>?N. eqv linked (lab_of result r) (lab_of result n))"
      unfolding H_def ins by blast
    moreover have "(\<exists>n\<in>?N. eqv linked (lab_of result r) (lab_of result n)) \<longleftrightarrow> (\<exists>n\<in>?N. (r, n) \<in> ?E\<^sup>*)"
    proof (rule bex_cong[OF refl])
      fix n assume "n \<in> ?N"
      then have "fg img n" "earlier n ?c" using Nold by auto
      then show "eqv linked (lab_of result r) (lab_of result n) \<longleftrightarrow> (r, n) \<in> ?E\<^sup>*"
        by (rule old_conn[OF r])
    qed
    ultimately show ?thesis unfolding hub_def by simp
  qed
  have Hlab: "H (?lab' r) \<longleftrightarrow> hub r" and rng: "in_range linked (?lab' r)"
    if r: "fg img r" "earlier r (y, Suc x)" for r
  proof -
    have rc: "earlier r ?c \<or> r = ?c" using r(2) by (simp add: earlier_Suc)
    show "H (?lab' r) \<longleftrightarrow> hub r"
    proof (cases "r = ?c")
      case True
      then show ?thesis using lab[OF r(1)] Hv by (simp add: hub_def)
    next
      case False
      then show ?thesis using lab[OF r(1)] Hold[OF r(1)] rc by simp
    qed
    show "in_range linked (?lab' r)"
      using lab[OF r(1)] vr oldr[OF r(1)] rc by auto
  qed
  have base: "eqv linked (?lab' p) (?lab' q) \<or> H (?lab' p) \<and> H (?lab' q)
       \<longleftrightarrow> (p, q) \<in> ?E\<^sup>* \<or> hub p \<and> hub q"
  proof (cases "p = ?c \<or> q = ?c")
    case True
    have hc: "hub ?c" by (simp add: hub_def)
    have 1: "eqv linked v l \<Longrightarrow> H l" "eqv linked l v \<Longrightarrow> H l" for l
      unfolding H_def by (auto intro: eqv_sym)
    have 2: "(?c, r) \<in> ?E\<^sup>* \<Longrightarrow> hub r" "(r, ?c) \<in> ?E\<^sup>* \<Longrightarrow> hub r" for r
      using edges_star_isolated(1)[of ?c r img] edges_star_isolated(2)[of r ?c img]
      by (auto simp: hub_def)
    from True show ?thesis
    proof
      assume pc: "p = ?c"
      then have lp: "?lab' p = v" using lab[OF p(1)] by simp
      show ?thesis unfolding lp using Hlab[OF q] Hv hc 1(1)[of "?lab' q"] 2(1)[of q] pc by blast
    next
      assume qc: "q = ?c"
      then have lq: "?lab' q = v" using lab[OF q(1)] by simp
      show ?thesis unfolding lq using Hlab[OF p] Hv hc 1(2)[of "?lab' p"] 2(2)[of p] qc by blast
    qed
  next
    case False
    then have e: "earlier p ?c" "earlier q ?c" "p \<noteq> ?c" "q \<noteq> ?c"
      using p(2) q(2) by (auto simp: earlier_Suc)
    have "?lab' p = lab_of result p" "?lab' q = lab_of result q"
      using lab[OF p(1)] lab[OF q(1)] e by auto
    then show ?thesis using old_conn[OF p(1) e(1) q(1) e(2)] Hlab[OF p] Hlab[OF q] by simp
  qed
  show "eqv (uf_union_all v ns linked) (?lab' p) (?lab' q) \<longleftrightarrow> (p, q) \<in> (edges_upto img (y, Suc x))\<^sup>*"
    unfolding graph eqv'[OF rng[OF p] rng[OF q]] by (rule base)
qed

lemma fresh_count_bound:
  assumes "needs_fresh img c"
  shows "int (card {p. needs_fresh img p \<and> earlier p c}) + 1 \<le> int (card {p. needs_fresh img p})"
proof -
  have fin: "finite {p. needs_fresh img p}" using finite_fresh[of img "\<lambda>_. True"] by simp
  have "card (insert c {p. needs_fresh img p \<and> earlier p c})
        = Suc (card {p. needs_fresh img p \<and> earlier p c})"
    by (rule card_insert_disjoint) (auto simp: finite_fresh)
  moreover have "card (insert c {p. needs_fresh img p \<and> earlier p c}) \<le> card {p. needs_fresh img p}"
    using assms by (intro card_mono[OF fin]) auto
  ultimately show ?thesis by simp
qed

lemma pass1_pixel_step:
  assumes inv: "pass1_inv img mc (y, x) s" and y: "y < rows img" and x: "x < cols img"
  shows "res_sat (cap_err img mc) (pass1_inv img mc (y, Suc x))
           (pass1_pixel mc (cols img) (if y = 0 then None else Some (y - 1)) y x s)"
proof -
  obtain result nl linked where s: "s = (result, nl, linked)" by (cases s) auto
  let ?c = "(y, x)"
  let ?N = "prior_nbrs img ?c"
  from inv have sh: "shape_ok img result" and il: "inv_labels img ?c result nl"
    and uf: "inv_uf mc nl linked" and ic: "inv_conn img ?c result linked"
    and ict: "inv_count img ?c nl" and im: "inv_min img ?c result"
    unfolding s pass1_inv_def by simp_all
  have ci: "in_image img ?c" using x y by (simp add: in_image_def)
  have cur: "result ! y ! x \<noteq> 0 \<longleftrightarrow> fg img ?c"
    using inv_labels_current[OF il ci] by (simp add: lab_of_def)
  define ns where "ns = getNeighbors (result ! y)
      (map_option (\<lambda>py. result ! py) (if y = 0 then None else Some (y - 1))) x y (cols img)"
  have nset: "set ns = lab_of result ` ?N" unfolding ns_def using sh il y x by (rule getNeighbors_set)
  have upd: "\<And>v. result[y := (result ! y)[x := v]] = set_px result ?c v" by (simp add: set_px_def)
  show ?thesis
  proof (cases "fg img ?c")
    case False
    have "pass1_inv img mc (y, Suc x) s"
      unfolding s pass1_inv_def
      using sh inv_labels_step_bg[OF il ci False] uf inv_conn_step_bg[OF ic False]
        inv_count_step_same[OF ict] inv_min_step_bg[OF im False] False
      by (simp add: needs_fresh_iff)
    moreover have "pass1_pixel mc (cols img) (if y = 0 then None else Some (y - 1)) y x s = Some (Inr s)"
      unfolding pass1_pixel_def s using cur False by simp
    ultimately show ?thesis by simp
  next
    case fgc: True
    show ?thesis
    proof (cases "ns = []")
      case True
      then have N: "?N = {}" using nset by simp
      have nf: "needs_fresh img ?c" using fgc N by (simp add: needs_fresh_iff)
      have nl1: "1 \<le> nl" using uf by (simp add: inv_uf_def)
      show ?thesis
      proof (cases "mc \<le> nl + 1")
        case cap: True
        have px: "pass1_pixel mc (cols img) (if y = 0 then None else Some (y - 1)) y x s
             = Some (Inl (LabelCapacityExceeded (nl + 1) mc))"
          unfolding pass1_pixel_def s using cur fgc True cap
          by (simp add: ns_def[symmetric] Let_def)
        have "nl + 1 \<le> 1 + int (card {p. needs_fresh img p})"
          using fresh_count_bound[OF nf] ict by (simp add: inv_count_def)
        moreover have "nl = 1 \<or> nl < mc" using uf by (simp add: inv_uf_def)
        ultimately have "cap_err img mc (LabelCapacityExceeded (nl + 1) mc)"
          unfolding cap_err_def using cap nl1 by auto
        then show ?thesis unfolding px by simp
      next
        case nocap: False
        then have lt: "nl + 1 < mc" by simp
        have px: "pass1_pixel mc (cols img) (if y = 0 then None else Some (y - 1)) y x s
             = Some (Inr (set_px result ?c nl, nl + 1, linked))"
          unfolding pass1_pixel_def s using cur fgc True nocap
          by (simp add: ns_def[symmetric] Let_def upd)
        have "pass1_inv img mc (y, Suc x) (set_px result ?c nl, nl + 1, linked)"
          unfolding pass1_inv_def
          using shape_ok_set_px[OF sh] inv_labels_step_set[OF sh il fgc nl1, of "nl + 1"]
            inv_uf_step_fresh[OF uf lt] inv_conn_step_fresh[OF sh il uf ic fgc N lt]
            inv_count_step_fresh[OF ict nf] inv_min_step_set[OF sh im ci, of nl] N
          by simp
        then show ?thesis unfolding px by simp
      qed
    next
      case False
      then have N: "?N \<noteq> {}" using nset by auto
      define v where "v = ns ! min_element ns"
      have vmin: "v = Min (set ns)"
        using min_element_Min[OF False] unfolding v_def by simp
      have "min_element ns < length ns" using min_element_Min[OF False] by simp
      then have vin: "v \<in> set ns" unfolding v_def by (rule nth_mem)
      have nsb: "\<forall>n\<in>set ns. 1 \<le> n \<and> n < nl"
      proof
        fix n assume "n \<in> set ns"
        then obtain p where p: "p \<in> ?N" "n = lab_of result p" using nset by auto
        then have "fg img p" "earlier p ?c" by (auto dest: prior_nbrs_earlier)
        then show "1 \<le> n \<and> n < nl"
          using inv_labels_earlier(2)[OF il fg_in_image] p(2) by simp
      qed
      have vb: "1 \<le> v" "v < nl" using nsb vin by auto
      have fm: "forM ns (\<lambda>neighbor. disjointUnion v neighbor) linked
                  = Some (Inr (uf_union_all v ns linked))"
        and uf': "inv_uf mc nl (uf_union_all v ns linked)"
        using inv_uf_step_merge[OF uf vb nsb] by auto
      have px: "pass1_pixel mc (cols img) (if y = 0 then None else Some (y - 1)) y x s
             = Some (Inr (set_px result ?c v, nl, uf_union_all v ns linked))"
        unfolding pass1_pixel_def s using cur fgc False fm
        by (simp add: ns_def[symmetric] Let_def upd v_def[symmetric])
      have nnf: "\<not> needs_fresh img ?c" using N by (simp add: needs_fresh_iff)
      have "pass1_inv img mc (y, Suc x) (set_px result ?c v, nl, uf_union_all v ns linked)"
        unfolding pass1_inv_def
        using shape_ok_set_px[OF sh] inv_labels_step_set[OF sh il fgc vb] uf'
          inv_conn_step_merge[OF sh il uf ic fgc nset vin]
          inv_count_step_same[OF ict nnf] inv_min_step_set[OF sh im ci, of v] vmin nset
        by simp
      then show ?thesis unfolding px by simp
    qed
  qed
qed

subsection \<open>Pass 1: the loops\<close>

lemma res_sat_conj:
  assumes "res_sat Q P m" and "\<And>x. m = Some (Inr x) \<Longrightarrow> P' x"
  shows "res_sat Q (\<lambda>x. P x \<and> P' x) m"
  using assms by (cases m rule: res_cases) auto

lemma edges_upto_cong:
  assumes "\<And>p. in_image img p \<Longrightarrow> earlier p c \<longleftrightarrow> earlier p c'"
  shows "edges_upto img c = edges_upto img c'"
  using assms by (auto simp: edges_upto_def edges8_def fg_def)

lemma pass1_inv_cong:
  assumes e: "\<And>p. in_image img p \<Longrightarrow> earlier p c \<longleftrightarrow> earlier p c'"
  shows "pass1_inv img mc c s = pass1_inv img mc c' s"
proof -
  obtain result nl linked where s: "s = (result, nl, linked)" by (cases s) auto
  have f: "\<And>p. fg img p \<Longrightarrow> earlier p c \<longleftrightarrow> earlier p c'" using e fg_in_image by blast
  have 1: "inv_labels img c result nl = inv_labels img c' result nl"
  proof -
    have "(in_image img p \<longrightarrow> (if earlier p c
         then (if fg img p then 1 \<le> lab_of result p \<and> lab_of result p < nl else lab_of result p = 0)
         else lab_of result p = uint (pixel img p)))
       = (in_image img p \<longrightarrow> (if earlier p c'
         then (if fg img p then 1 \<le> lab_of result p \<and> lab_of result p < nl else lab_of result p = 0)
         else lab_of result p = uint (pixel img p)))" for p
      using e[of p] by auto
    then show ?thesis unfolding inv_labels_def by simp
  qed
  have E: "edges_upto img c = edges_upto img c'" using e by (rule edges_upto_cong)
  have 2: "inv_conn img c result linked = inv_conn img c' result linked"
  proof -
    have "(fg img p \<and> earlier p c \<and> fg img q \<and> earlier q c) = (fg img p \<and> earlier p c' \<and> fg img q \<and> earlier q c')"
      for p q using f by blast
    then show ?thesis unfolding inv_conn_def E by simp
  qed
  have "{p. needs_fresh img p \<and> earlier p c} = {p. needs_fresh img p \<and> earlier p c'}"
    using f by (auto simp: needs_fresh_def)
  then have 3: "inv_count img c nl = inv_count img c' nl" by (simp add: inv_count_def)
  have 4: "inv_min img c result = inv_min img c' result"
  proof -
    have "(fg img p \<and> earlier p c \<and> prior_nbrs img p \<noteq> {}) = (fg img p \<and> earlier p c' \<and> prior_nbrs img p \<noteq> {})"
      for p using f by blast
    then show ?thesis unfolding inv_min_def by simp
  qed
  show ?thesis unfolding s pass1_inv_def using 1 2 3 4 by simp
qed

lemma pass1_inv_row_end: "pass1_inv img mc (y, cols img) s = pass1_inv img mc (Suc y, 0) s"
  by (rule pass1_inv_cong) (simp add: in_image_def earlier_row_end)

lemma pass1_at_pixel_step:
  assumes at: "pass1_at img mc (y, x) s" and y: "y < rows img" and x: "x < cols img"
  shows "res_sat (cap_err img mc) (pass1_at img mc (y, Suc x))
           (pass1_pixel mc (cols img) (if y = 0 then None else Some (y - 1)) y x s)"
proof -
  have inv: "pass1_inv img mc (y, x) s" and re: "pass1_reach img mc (y, x) s"
    using at by (simp_all add: pass1_at_def)
  have "res_sat (cap_err img mc)
          (\<lambda>s'. pass1_inv img mc (y, Suc x) s' \<and> pass1_reach img mc (y, Suc x) s')
          (pass1_pixel mc (cols img) (if y = 0 then None else Some (y - 1)) y x s)"
    using pass1_pixel_step[OF inv y x]
    by (rule res_sat_conj) (rule pass1_reach.pixel[OF re y x])
  then show ?thesis by (simp add: pass1_at_def[abs_def])
qed

lemma pass1_at_row_end:
  assumes "pass1_at img mc (y, cols img) s" "y < rows img"
  shows "pass1_at img mc (Suc y, 0) s"
  using assms pass1_reach.row_end[of img mc y s]
  by (simp add: pass1_at_def pass1_inv_row_end)

lemma pass1_row_step:
  assumes at: "pass1_at img mc (y, 0) s" and y: "y < rows img"
  shows "res_sat (cap_err img mc)
           (\<lambda>(s', prev). pass1_at img mc (Suc y, 0) s' \<and> prev = Some y)
           (pass1_row mc (cols img) y (s, if y = 0 then None else Some (y - 1)))"
proof -
  have "res_sat (cap_err img mc) (\<lambda>s'. pass1_at img mc (y, cols img) s')
          (forM [0..<cols img] (pass1_pixel mc (cols img) (if y = 0 then None else Some (y - 1)) y) s)"
  proof (rule forM_upt_rule[where I = "\<lambda>x. pass1_at img mc (y, x)"])
    show "pass1_at img mc (y, 0) s" by (rule at)
    show "0 \<le> cols img" by simp
    fix i t assume "i < cols img" "pass1_at img mc (y, i) t"
    then show "res_sat (cap_err img mc) (pass1_at img mc (y, Suc i))
        (pass1_pixel mc (cols img) (if y = 0 then None else Some (y - 1)) y i t)"
      using y by (intro pass1_at_pixel_step)
  qed
  then show ?thesis
    unfolding pass1_row_def prod.case
    by (rule res_sat_bind) (simp add: pass1_at_row_end[OF _ y])
qed

lemma wf_mat_nth: "wf_mat img \<Longrightarrow> y < rows img \<Longrightarrow> length (data img ! y) = cols img"
  by (simp add: wf_mat_def)

lemma pass1_inv_init:
  assumes wf: "wf_mat img" and mc: "0 \<le> mc"
  shows "pass1_inv img mc (0, 0) (map (map uint) (data img), 1, replicate (nat mc) 0)"
proof -
  let ?r = "map (map uint) (data img)"
  have len: "length (data img) = rows img" using wf by (simp add: wf_mat_def)
  have 1: "shape_ok img ?r"
    using len wf_mat_nth[OF wf] by (simp add: shape_ok_def)
  have 2: "inv_labels img (0, 0) ?r 1"
    unfolding inv_labels_def
  proof (intro allI impI)
    fix p assume "in_image img p"
    then have "fst p < length (data img)" "snd p < length (data img ! fst p)"
      using len wf_mat_nth[OF wf] by (auto simp: in_image_def)
    then have "lab_of ?r p = uint (pixel img p)" by (simp add: lab_of_def pixel_def)
    then show "if earlier p (0, 0)
        then (if fg img p then 1 \<le> lab_of ?r p \<and> lab_of ?r p < 1 else lab_of ?r p = 0)
        else lab_of ?r p = uint (pixel img p)" by simp
  qed
  have 3: "inv_uf mc 1 (replicate (nat mc) 0)"
    by (simp add: inv_uf_def acyclic_parent_def bounded_parent_def)
  have 4: "inv_conn img (0, 0) ?r (replicate (nat mc) 0)" by (simp add: inv_conn_def)
  have 5: "inv_count img (0, 0) 1" by (simp add: inv_count_def)
  have 6: "inv_min img (0, 0) ?r" by (simp add: inv_min_def)
  show ?thesis unfolding pass1_inv_def using 1 2 3 4 5 6 by simp
qed

lemma pass1_sat_at:
  assumes wf: "wf_mat img" and mc: "0 \<le> mc"
  shows "res_sat (cap_err img mc) (pass1_at img mc (rows img, 0))
           (pass1 mc (rows img) (cols img) (map (map uint) (data img)))"
proof -
  let ?I = "\<lambda>y (s, prev). pass1_at img mc (y, 0) s \<and> prev = (if y = 0 then None else Some (y - 1))"
  have "res_sat (cap_err img mc) (?I (rows img))
          (forM [0..<rows img] (pass1_row mc (cols img))
             ((map (map uint) (data img), 1, replicate (nat mc) 0), None))"
  proof (rule forM_upt_rule[where I = ?I])
    show "?I 0 ((map (map uint) (data img), 1, replicate (nat mc) 0), None)"
      using pass1_inv_init[OF wf mc] pass1_reach.start[OF mc, of img] by (simp add: pass1_at_def)
    show "0 \<le> rows img" by simp
    fix y t assume y: "y < rows img" and t: "?I y t"
    obtain s prev where tt: "t = (s, prev)" by (cases t) auto
    have "res_sat (cap_err img mc)
           (\<lambda>(s', prev). pass1_at img mc (Suc y, 0) s' \<and> prev = Some y)
           (pass1_row mc (cols img) y (s, if y = 0 then None else Some (y - 1)))"
      using t y unfolding tt by (intro pass1_row_step) auto
    then show "res_sat (cap_err img mc) (?I (Suc y)) (pass1_row mc (cols img) y t)"
      using t unfolding tt by (auto elim!: res_sat_mono)
  qed
  then show ?thesis
    unfolding pass1_def using mc
    by (auto intro!: res_sat_bind[where P' = "?I (rows img)"])
qed

lemma pass1_sat:
  assumes wf: "wf_mat img" and mc: "0 \<le> mc"
  shows "res_sat (cap_err img mc) (pass1_inv img mc (rows img, 0))
           (pass1 mc (rows img) (cols img) (map (map uint) (data img)))"
  using pass1_sat_at[OF wf mc] by (rule res_sat_mono) (simp_all add: pass1_at_def)

lemma pass1_reach_inv:
  assumes wf: "wf_mat img" and re: "pass1_reach img mc c s"
  shows "pass1_inv img mc c s"
  using re
proof (induction rule: pass1_reach.induct)
  case start
  then show ?case using pass1_inv_init[OF wf] by simp
next
  case (pixel y x s s')
  from pass1_pixel_step[OF pixel.IH pixel.hyps(2,3)] pixel.hyps(4)
  show ?case by simp
next
  case (row_end y s)
  then show ?case by (simp add: pass1_inv_row_end)
qed

lemma pass1_final_reach:
  assumes wf: "wf_mat img"
    and p1: "pass1 mc (rows img) (cols img) (map (map uint) (data img)) = Some (Inr s)"
  shows "pass1_reach img mc (rows img, 0) s"
proof -
  have mc: "0 \<le> mc" using p1 by (auto simp: pass1_def split: if_splits)
  from pass1_sat_at[OF wf mc] p1 show ?thesis by (simp add: pass1_at_def)
qed

subsection \<open>Pass 2\<close>

lemma pass1_inv_post:
  assumes "pass1_inv img mc (rows img, 0) (result1, nl1, linked)"
  shows "pass1_post img mc result1 linked"
proof -
  from assms have sh: "shape_ok img result1" and il: "inv_labels img (rows img, 0) result1 nl1"
    and uf: "inv_uf mc nl1 linked" and ic: "inv_conn img (rows img, 0) result1 linked"
    unfolding pass1_inv_def by simp_all
  have lab: "if fg img p then in_range linked (lab_of result1 p) \<and> 1 \<le> lab_of result1 p
            else lab_of result1 p = 0" if p: "in_image img p" for p
  proof (cases "fg img p")
    case True
    have "1 \<le> lab_of result1 p \<and> lab_of result1 p < nl1"
      by (rule inv_labels_earlier(2)[OF il p earlier_all[OF p] True])
    then show ?thesis using True inv_uf_in_range[OF uf] by simp
  next
    case False
    then show ?thesis using inv_labels_earlier(1)[OF il p earlier_all[OF p]] by simp
  qed
  have conn: "eqv linked (lab_of result1 p) (lab_of result1 q) \<longleftrightarrow> (p, q) \<in> (edges8 img)\<^sup>*"
    if "fg img p" "fg img q" for p q
    using inv_connD[OF ic that(1) earlier_all[OF fg_in_image[OF that(1)]]
        that(2) earlier_all[OF fg_in_image[OF that(2)]]]
    by (simp add: edges_upto_final)
  show ?thesis unfolding pass1_post_def using sh uf lab conn by (simp add: inv_uf_def)
qed

lemma roots_upto_Suc:
  "roots_upto img result1 linked (y, Suc x) =
     roots_upto img result1 linked (y, x)
     \<union> (if fg img (y, x) then {root_of linked (lab_of result1 (y, x))} else {})"
proof -
  have "{p. fg img p \<and> earlier p (y, Suc x)}
        = {p. fg img p \<and> earlier p (y, x)} \<union> (if fg img (y, x) then {(y, x)} else {})"
    by (auto simp: earlier_Suc)
  then show ?thesis unfolding roots_upto_def by auto
qed

lemma disjointFind_root:
  assumes ac: "acyclic_parent linked" and a: "in_range linked a" and len: "length ls = length linked"
  shows "disjointFind a linked ls nl =
     (let r = root_of linked a in
      if ls ! nat r = 0 then Some (Inr (nl, ls[nat r := nl], nl + 1))
      else Some (Inr (ls ! nat r, ls, nl)))"
proof -
  have c: "chase linked a = Some (Inr (root_of linked a))" using ac a by (rule chase_root_of)
  have r: "in_range ls (root_of linked a)"
    using root_of_in_range[OF ac a] len by (simp add: in_range_def)
  show ?thesis
    unfolding disjointFind_def c using r
    by (simp add: vec_get_def vec_set_def in_range_def Let_def)
qed

lemma pass1_post_fg:
  assumes "pass1_post img mc result1 linked" "fg img p"
  shows "in_range linked (lab_of result1 p)" "1 \<le> lab_of result1 p"
proof -
  have "if fg img p then in_range linked (lab_of result1 p) \<and> 1 \<le> lab_of result1 p
        else lab_of result1 p = 0"
    using assms(1) fg_in_image[OF assms(2)] unfolding pass1_post_def by blast
  then show "in_range linked (lab_of result1 p)" "1 \<le> lab_of result1 p" using assms(2) by simp_all
qed

lemma pass1_post_bg:
  assumes "pass1_post img mc result1 linked" "in_image img p" "\<not> fg img p"
  shows "lab_of result1 p = 0"
proof -
  have "if fg img p then in_range linked (lab_of result1 p) \<and> 1 \<le> lab_of result1 p
        else lab_of result1 p = 0"
    using assms(1,2) unfolding pass1_post_def by blast
  then show ?thesis using assms(3) by simp
qed

lemma roots_in_range:
  assumes post: "pass1_post img mc result1 linked" and r: "r \<in> roots_upto img result1 linked c"
  shows "in_range linked r"
proof -
  from r obtain p where p: "fg img p" "r = root_of linked (lab_of result1 p)"
    unfolding roots_upto_def by auto
  have "acyclic_parent linked" using post by (simp add: pass1_post_def)
  then show ?thesis unfolding p(2) using pass1_post_fg(1)[OF post p(1)] by (rule root_of_in_range)
qed

lemma in_range_nat_inj: "in_range ps r \<Longrightarrow> in_range ps r' \<Longrightarrow> nat r = nat r' \<longleftrightarrow> r = r'"
  by (auto simp: in_range_def)

lemma pass2_inv_step_bg:
  assumes post: "pass1_post img mc result1 linked"
    and inv: "pass2_inv img result1 linked (y, x) s" and bg: "\<not> fg img (y, x)"
  shows "pass2_inv img result1 linked (y, Suc x) s"
proof -
  obtain result ls nl temp where s: "s = (result, ls, nl, temp)" by (cases s) auto
  have e: "(earlier p (y, Suc x) \<and> fg img p) = (earlier p (y, x) \<and> fg img p)" for p
    using bg by (auto simp: earlier_Suc)
  have e': "{p. fg img p \<and> earlier p (y, Suc x)} = {p. fg img p \<and> earlier p (y, x)}"
    using e by blast
  have R: "roots_upto img result1 linked (y, Suc x) = roots_upto img result1 linked (y, x)"
    using bg by (simp add: roots_upto_Suc)
  show ?thesis using inv unfolding s pass2_inv_def prod.case R e e' .
qed

lemma pass2_inv_step_fg:
  assumes post: "pass1_post img mc result1 linked"
    and inv: "pass2_inv img result1 linked (y, x) (result, ls, nl, temp)"
    and c: "fg img (y, x)"
    and r: "r = root_of linked (lab_of result1 (y, x))"
    and len: "length ls' = length ls"
    and v: "ls' ! nat r = v"
    and other: "\<And>r'. in_range linked r' \<Longrightarrow> r' \<noteq> r \<Longrightarrow> ls' ! nat r' = ls ! nat r'"
    and cases: "(r \<in> roots_upto img result1 linked (y, x) \<and> nl' = nl \<and> ls' = ls)
              \<or> (r \<notin> roots_upto img result1 linked (y, x) \<and> v = nl \<and> nl' = nl + 1)"
  shows "pass2_inv img result1 linked (y, Suc x) (set_px result (y, x) v, ls', nl', temp @ [v])"
proof -
  let ?c = "(y, x)"
  let ?R = "roots_upto img result1 linked ?c"
  let ?R' = "roots_upto img result1 linked (y, Suc x)"
  let ?res' = "set_px result ?c v"
  from inv have sh: "shape_ok img result" and lls: "length ls = length linked" and nl1: "1 \<le> nl"
    and labs: "\<And>p. in_image img p \<Longrightarrow> lab_of result p =
                (if earlier p ?c \<and> fg img p then ls ! nat (root_of linked (lab_of result1 p))
                 else lab_of result1 p)"
    and vals: "\<And>r'. in_range linked r' \<Longrightarrow>
              (if r' \<in> ?R then 1 \<le> ls ! nat r' \<and> ls ! nat r' < nl else ls ! nat r' = 0)"
    and inj: "inj_on (\<lambda>r. ls ! nat r) ?R"
    and img: "(\<lambda>r. ls ! nat r) ` ?R = {1..<nl}"
    and tmp: "set temp = lab_of result ` {p. fg img p \<and> earlier p ?c}"
    unfolding pass2_inv_def by auto
  have ci: "in_image img ?c" using c by (rule fg_in_image)
  have R': "?R' = insert r ?R" using c r by (simp add: roots_upto_Suc)
  have rr: "in_range linked r"
    using roots_in_range[OF post, of r "(y, Suc x)"] R' by simp
  have Rr: "\<And>r'. r' \<in> ?R \<Longrightarrow> in_range linked r'" using roots_in_range[OF post] by blast
  have lab': "\<And>p. in_image img p \<Longrightarrow> lab_of ?res' p = (if p = ?c then v else lab_of result p)"
    by (rule lab_of_set_px[OF sh ci])
  have keep: "ls' ! nat r' = ls ! nat r'" if "r' \<in> ?R" for r'
  proof (cases "r' = r")
    case True
    then have "r \<in> ?R" using that by simp
    then have "ls' = ls" using cases by auto
    then show ?thesis by simp
  next
    case False
    then show ?thesis using other[OF Rr[OF that]] by simp
  qed
  have vb: "1 \<le> v \<and> v < nl'" and nle: "nl \<le> nl'"
  proof -
    from cases show "1 \<le> v \<and> v < nl'"
    proof
      assume a: "r \<in> ?R \<and> nl' = nl \<and> ls' = ls"
      then have "1 \<le> ls ! nat r \<and> ls ! nat r < nl" using vals[OF rr] by simp
      then show ?thesis using a v by auto
    next
      assume "r \<notin> ?R \<and> v = nl \<and> nl' = nl + 1"
      then show ?thesis using nl1 by simp
    qed
    from cases show "nl \<le> nl'" by auto
  qed
  have 1: "shape_ok img ?res'" using sh by (rule shape_ok_set_px)
  have 2: "length ls' = length linked" using len lls by simp
  have 3: "1 \<le> nl'" using nl1 nle by simp
  have 4: "lab_of ?res' p =
                (if earlier p (y, Suc x) \<and> fg img p then ls' ! nat (root_of linked (lab_of result1 p))
                 else lab_of result1 p)" if p: "in_image img p" for p
  proof (cases "p = ?c")
    case True
    then show ?thesis using lab'[OF p] c v r by (simp add: earlier_Suc)
  next
    case False
    show ?thesis
    proof (cases "earlier p ?c \<and> fg img p")
      case True
      then have "root_of linked (lab_of result1 p) \<in> ?R" unfolding roots_upto_def by auto
      then have "ls' ! nat (root_of linked (lab_of result1 p)) = ls ! nat (root_of linked (lab_of result1 p))"
        by (rule keep)
      then show ?thesis using lab'[OF p] labs[OF p] False True by (simp add: earlier_Suc)
    next
      case F2: False
      then show ?thesis using lab'[OF p] labs[OF p] False by (auto simp add: earlier_Suc)
    qed
  qed
  have 5: "if r' \<in> ?R' then 1 \<le> ls' ! nat r' \<and> ls' ! nat r' < nl' else ls' ! nat r' = 0"
    if r': "in_range linked r'" for r'
  proof (cases "r' = r")
    case True
    then show ?thesis using vb v R' by simp
  next
    case False
    then show ?thesis using other[OF r' False] vals[OF r'] R' nle by auto
  qed
  have eqR: "\<And>r'. r' \<in> ?R \<Longrightarrow> (\<lambda>r. ls' ! nat r) r' = (\<lambda>r. ls ! nat r) r'" using keep by simp
  have injR: "inj_on (\<lambda>r. ls' ! nat r) ?R"
    using inj inj_on_cong[of ?R "\<lambda>r. ls' ! nat r" "\<lambda>r. ls ! nat r"] eqR by blast
  have imgR: "(\<lambda>r. ls' ! nat r) ` ?R = {1..<nl}"
    using img image_cong[OF refl, of ?R "\<lambda>r. ls' ! nat r" "\<lambda>r. ls ! nat r"] eqR by simp
  have 67: "inj_on (\<lambda>r. ls' ! nat r) ?R' \<and> (\<lambda>r. ls' ! nat r) ` ?R' = {1..<nl'}"
    using cases
  proof
    assume a: "r \<in> ?R \<and> nl' = nl \<and> ls' = ls"
    then have "?R' = ?R" using R' by auto
    then show ?thesis using injR imgR a by simp
  next
    assume a: "r \<notin> ?R \<and> v = nl \<and> nl' = nl + 1"
    have "ls' ! nat r \<notin> (\<lambda>r. ls' ! nat r) ` ?R" unfolding imgR using v a by simp
    then have "inj_on (\<lambda>r. ls' ! nat r) (insert r ?R)" using injR by (auto simp add: inj_on_insert)
    moreover have "(\<lambda>r. ls' ! nat r) ` (insert r ?R) = {1..<nl + 1}"
      using imgR v a nl1 by auto
    ultimately show ?thesis using R' a by simp
  qed
  have 8: "set (temp @ [v]) = lab_of ?res' ` {p. fg img p \<and> earlier p (y, Suc x)}"
  proof -
    have S: "{p. fg img p \<and> earlier p (y, Suc x)} = insert ?c {p. fg img p \<and> earlier p ?c}"
      using c by (auto simp: earlier_Suc)
    have "lab_of ?res' p = lab_of result p" if "p \<in> {p. fg img p \<and> earlier p ?c}" for p
    proof -
      have "p \<noteq> ?c" "in_image img p" using that fg_in_image by auto
      then show ?thesis using lab' by simp
    qed
    then have "lab_of ?res' ` {p. fg img p \<and> earlier p ?c} = lab_of result ` {p. fg img p \<and> earlier p ?c}"
      by (intro image_cong) auto
    then show ?thesis unfolding S using tmp lab'[OF ci] by simp
  qed
  show ?thesis unfolding pass2_inv_def prod.case using 1 2 3 4 5 67 8 by blast
qed

lemma pass2_invD:
  assumes "pass2_inv img result1 linked c (result, ls, nl, temp)"
  shows "shape_ok img result" "length ls = length linked"
    "\<And>p. in_image img p \<Longrightarrow> lab_of result p =
                (if earlier p c \<and> fg img p then ls ! nat (root_of linked (lab_of result1 p))
                 else lab_of result1 p)"
    "\<And>r'. in_range linked r' \<Longrightarrow>
              (if r' \<in> roots_upto img result1 linked c then 1 \<le> ls ! nat r' \<and> ls ! nat r' < nl
               else ls ! nat r' = 0)"
  using assms unfolding pass2_inv_def by auto

lemma pass2_pixel_step:
  assumes post: "pass1_post img mc result1 linked"
    and inv: "pass2_inv img result1 linked (y, x) s" and y: "y < rows img" and x: "x < cols img"
  shows "res_sat no_err (pass2_inv img result1 linked (y, Suc x)) (pass2_pixel linked y x s)"
proof -
  obtain result ls nl temp where s: "s = (result, ls, nl, temp)" by (cases s) auto
  let ?c = "(y, x)"
  note I = pass2_invD[OF inv[unfolded s]]
  have ci: "in_image img ?c" using x y by (simp add: in_image_def)
  have cur: "result ! y ! x = lab_of result1 ?c" using I(3)[OF ci] by (simp add: lab_of_def)
  have upd: "\<And>v. result[y := (result ! y)[x := v]] = set_px result ?c v" by (simp add: set_px_def)
  have ac: "acyclic_parent linked" using post by (simp add: pass1_post_def)
  show ?thesis
  proof (cases "fg img ?c")
    case False
    have "result ! y ! x = 0" using cur pass1_post_bg[OF post ci False] by simp
    then have "pass2_pixel linked y x s = Some (Inr s)" by (simp add: pass2_pixel_def s)
    then show ?thesis using pass2_inv_step_bg[OF post inv False] by simp
  next
    case True
    let ?a = "lab_of result1 ?c"
    define r where "r = root_of linked ?a"
    have a: "in_range linked ?a" "1 \<le> ?a" using pass1_post_fg[OF post True] by auto
    have rr: "in_range linked r" unfolding r_def using ac a(1) by (rule root_of_in_range)
    have nz: "result ! y ! x \<noteq> 0" using cur a(2) by simp
    have df: "disjointFind ?a linked ls nl =
       (if ls ! nat r = 0 then Some (Inr (nl, ls[nat r := nl], nl + 1))
        else Some (Inr (ls ! nat r, ls, nl)))"
      using disjointFind_root[OF ac a(1) I(2), of nl] by (simp add: Let_def r_def)
    show ?thesis
    proof (cases "ls ! nat r = 0")
      case z: True
      have notin: "r \<notin> roots_upto img result1 linked ?c" using I(4)[OF rr] z by auto
      have px: "pass2_pixel linked y x s
           = Some (Inr (set_px result ?c nl, ls[nat r := nl], nl + 1, temp @ [nl]))"
        unfolding pass2_pixel_def s using nz z df by (simp add: upd cur)
      have rl: "nat r < length ls" using in_range_nat[OF rr] I(2) by simp
      have "pass2_inv img result1 linked (y, Suc x) (set_px result ?c nl, ls[nat r := nl], nl + 1, temp @ [nl])"
      proof (rule pass2_inv_step_fg[OF post inv[unfolded s] True r_def])
        show "length (ls[nat r := nl]) = length ls" by simp
        show "ls[nat r := nl] ! nat r = nl" using rl by simp
        show "ls[nat r := nl] ! nat r' = ls ! nat r'" if "in_range linked r'" "r' \<noteq> r" for r'
        proof -
          have "nat r \<noteq> nat r'" using in_range_nat_inj[OF that(1) rr] that(2) by auto
          then show ?thesis by simp
        qed
        show "(r \<in> roots_upto img result1 linked ?c \<and> nl + 1 = nl \<and> ls[nat r := nl] = ls)
              \<or> (r \<notin> roots_upto img result1 linked ?c \<and> nl = nl \<and> nl + 1 = nl + 1)"
          using notin by simp
      qed
      then show ?thesis unfolding px by simp
    next
      case nz': False
      have isin: "r \<in> roots_upto img result1 linked ?c" using I(4)[OF rr] nz' by (auto split: if_splits)
      have px: "pass2_pixel linked y x s
           = Some (Inr (set_px result ?c (ls ! nat r), ls, nl, temp @ [ls ! nat r]))"
        unfolding pass2_pixel_def s using nz nz' df by (simp add: upd cur)
      have "pass2_inv img result1 linked (y, Suc x) (set_px result ?c (ls ! nat r), ls, nl, temp @ [ls ! nat r])"
      proof (rule pass2_inv_step_fg[OF post inv[unfolded s] True r_def])
        show "length ls = length ls" by simp
        show "ls ! nat r = ls ! nat r" by simp
        show "\<And>r'. in_range linked r' \<Longrightarrow> r' \<noteq> r \<Longrightarrow> ls ! nat r' = ls ! nat r'" by simp
        show "(r \<in> roots_upto img result1 linked ?c \<and> nl = nl \<and> ls = ls)
              \<or> (r \<notin> roots_upto img result1 linked ?c \<and> ls ! nat r = nl \<and> nl = nl + 1)"
          using isin by simp
      qed
      then show ?thesis unfolding px by simp
    qed
  qed
qed

lemma pass2_inv_row_end:
  "pass2_inv img result1 linked (y, cols img) s = pass2_inv img result1 linked (Suc y, 0) s"
proof -
  obtain result ls nl temp where s: "s = (result, ls, nl, temp)" by (cases s) auto
  have e: "in_image img p \<Longrightarrow> earlier p (y, cols img) = earlier p (Suc y, 0)" for p
    by (simp add: in_image_def earlier_row_end)
  have f: "(fg img p \<and> earlier p (y, cols img)) = (fg img p \<and> earlier p (Suc y, 0))" for p
    using e[of p] fg_in_image[of img p] by blast
  have R: "roots_upto img result1 linked (y, cols img) = roots_upto img result1 linked (Suc y, 0)"
    unfolding roots_upto_def f ..
  have L: "(in_image img p \<longrightarrow> lab_of result p =
                (if earlier p (y, cols img) \<and> fg img p then ls ! nat (root_of linked (lab_of result1 p))
                 else lab_of result1 p))
        = (in_image img p \<longrightarrow> lab_of result p =
                (if earlier p (Suc y, 0) \<and> fg img p then ls ! nat (root_of linked (lab_of result1 p))
                 else lab_of result1 p))" for p
    using e[of p] by auto
  show ?thesis unfolding s pass2_inv_def prod.case R f L ..
qed

lemma pass2_inv_init:
  assumes post: "pass1_post img mc result1 linked"
  shows "pass2_inv img result1 linked (0, 0) (result1, replicate (nat mc) 0, 1, [])"
proof -
  have R: "roots_upto img result1 linked (0, 0) = {}" by (simp add: roots_upto_def)
  have len: "length linked = nat mc" and sh: "shape_ok img result1"
    using post by (simp_all add: pass1_post_def)
  have z: "replicate (nat mc) (0::int) ! nat r = 0" if "in_range linked r" for r
    using in_range_nat[OF that] len by simp
  show ?thesis unfolding pass2_inv_def prod.case R using sh len z by simp
qed

lemma pass2_sat:
  assumes post: "pass1_post img mc result1 linked" and mc: "0 \<le> mc"
  shows "res_sat no_err (pass2_inv img result1 linked (rows img, 0))
           (pass2 mc (rows img) (cols img) linked result1)"
proof -
  have "res_sat no_err (pass2_inv img result1 linked (rows img, 0))
          (forM [0..<rows img] (\<lambda>y. forM [0..<cols img] (pass2_pixel linked y))
             (result1, replicate (nat mc) 0, 1, []))"
  proof (rule forM_upt_rule[where I = "\<lambda>y. pass2_inv img result1 linked (y, 0)"])
    show "pass2_inv img result1 linked (0, 0) (result1, replicate (nat mc) 0, 1, [])"
      using post by (rule pass2_inv_init)
    show "0 \<le> rows img" by simp
    fix y t assume y: "y < rows img" and t: "pass2_inv img result1 linked (y, 0) t"
    have "res_sat no_err (pass2_inv img result1 linked (y, cols img))
            (forM [0..<cols img] (pass2_pixel linked y) t)"
    proof (rule forM_upt_rule[where I = "\<lambda>x. pass2_inv img result1 linked (y, x)"])
      show "pass2_inv img result1 linked (y, 0) t" by (rule t)
      show "0 \<le> cols img" by simp
      fix x u assume "x < cols img" "pass2_inv img result1 linked (y, x) u"
      then show "res_sat no_err (pass2_inv img result1 linked (y, Suc x)) (pass2_pixel linked y x u)"
        using post y by (intro pass2_pixel_step)
    qed
    moreover have "pass2_inv img result1 linked (y, cols img) = pass2_inv img result1 linked (Suc y, 0)"
      by (rule ext) (rule pass2_inv_row_end)
    ultimately show "res_sat no_err (pass2_inv img result1 linked (Suc y, 0))
            (forM [0..<cols img] (pass2_pixel linked y) t)"
      by simp
  qed
  then show ?thesis unfolding pass2_def using mc by simp
qed

subsection \<open>The labelling\<close>

lemma set_int_upt: "1 \<le> n \<Longrightarrow> set (map int [1..<nat n]) = {1..<n}"
proof -
  assume n: "1 \<le> n"
  have "int ` {1..<nat n} = {1..<n}"
  proof (rule set_eqI)
    fix k show "k \<in> int ` {1..<nat n} \<longleftrightarrow> k \<in> {1..<n}"
    proof
      assume "k \<in> int ` {1..<nat n}"
      then show "k \<in> {1..<n}" by auto
    next
      assume k: "k \<in> {1..<n}"
      then have "nat k \<in> {1..<nat n}" "k = int (nat k)" by auto
      then show "k \<in> int ` {1..<nat n}" by (rule_tac image_eqI)
    qed
  qed
  then show ?thesis by simp
qed

lemma sorted_distinct_range:
  assumes "sorted xs" "distinct xs" "set xs = {1..<n}" "1 \<le> n"
  shows "xs = map int [1..<nat n]"
proof (rule sorted_distinct_set_unique)
  show "sorted xs" "distinct xs" by fact+
  show "sorted (map int [1..<nat n])" by (simp add: sorted_map sorted_wrt_mono_rel[of _ "(<)" "(\<le>)"])
  show "distinct (map int [1..<nat n])" by (simp add: distinct_map inj_on_def)
  show "set xs = set (map int [1..<nat n])" using assms(3,4) by (simp only: set_int_upt)
qed

lemma distinct_remdups_adj_sorted:
  "sorted (xs :: int list) \<Longrightarrow> distinct (remdups_adj xs)"
proof (induction xs rule: remdups_adj.induct)
  case 1
  then show ?case by simp
next
  case (2 x)
  then show ?case by simp
next
  case (3 x y xs)
  show ?case
  proof (cases "x = y")
    case True
    then show ?thesis using 3 by simp
  next
    case False
    then have "x \<notin> set (y # xs)" using "3.prems" by auto
    then show ?thesis using False 3 by simp
  qed
qed

lemma unique_labels:
  assumes "set temp = {1..<n}" "1 \<le> n"
  shows "(if temp \<noteq> [] then remdups_adj (sort temp) else []) = map int [1..<nat n]"
proof -
  have e: "(if temp \<noteq> [] then remdups_adj (sort temp) else []) = remdups_adj (sort temp)" by simp
  show ?thesis unfolding e
  proof (rule sorted_distinct_range)
    show "sorted (remdups_adj (sort temp))" by (simp add: sorted_remdups_adj)
    show "distinct (remdups_adj (sort temp))" by (simp add: distinct_remdups_adj_sorted)
    show "set (remdups_adj (sort temp)) = {1..<n}" using assms(1) by simp
    show "1 \<le> n" by fact
  qed
qed

lemma pass2_final:
  assumes post: "pass1_post img mc result1 linked"
    and inv: "pass2_inv img result1 linked (rows img, 0) (result, ls, nl, temp)"
  shows "labelling_ok img (result, (if temp \<noteq> [] then remdups_adj (sort temp) else []), nl)"
proof -
  let ?c = "(rows img, 0)"
  let ?R = "roots_upto img result1 linked ?c"
  let ?root = "\<lambda>p. root_of linked (lab_of result1 p)"
  let ?f = "\<lambda>r. ls ! nat r"
  from inv have sh: "shape_ok img result" and nl1: "1 \<le> nl"
    and labs: "\<And>p. in_image img p \<Longrightarrow> lab_of result p =
                (if earlier p ?c \<and> fg img p then ls ! nat (root_of linked (lab_of result1 p))
                 else lab_of result1 p)"
    and vals: "\<And>r'. in_range linked r' \<Longrightarrow>
              (if r' \<in> ?R then 1 \<le> ls ! nat r' \<and> ls ! nat r' < nl else ls ! nat r' = 0)"
    and inj: "inj_on ?f ?R"
    and img: "?f ` ?R = {1..<nl}"
    and tmp: "set temp = lab_of result ` {p. fg img p \<and> earlier p ?c}"
    unfolding pass2_inv_def by auto
  have all: "{p. fg img p \<and> earlier p ?c} = {p. fg img p}"
    using earlier_all fg_in_image by blast
  have R: "?R = ?root ` {p. fg img p}" unfolding roots_upto_def all ..
  have labfg: "lab_of result p = ?f (?root p)" if "fg img p" for p
    using labs[OF fg_in_image[OF that]] earlier_all[OF fg_in_image[OF that]] that by simp
  have rin: "?root p \<in> ?R" if "fg img p" for p unfolding R using that by blast
  have 3: "if fg img p then 1 \<le> lab_of result p \<and> lab_of result p < nl else lab_of result p = 0"
    if p: "in_image img p" for p
  proof (cases "fg img p")
    case True
    have "?f (?root p) \<in> {1..<nl}" using rin[OF True] img by blast
    then show ?thesis using True labfg[OF True] by simp
  next
    case False
    then show ?thesis using labs[OF p] pass1_post_bg[OF post p False] by simp
  qed
  have 4: "lab_of result p = lab_of result q \<longleftrightarrow> (p, q) \<in> (edges8 img)\<^sup>*"
    if pq: "fg img p" "fg img q" for p q
  proof -
    have "lab_of result p = lab_of result q \<longleftrightarrow> ?root p = ?root q"
      unfolding labfg[OF pq(1)] labfg[OF pq(2)]
      using inj_on_eq_iff[OF inj rin[OF pq(1)] rin[OF pq(2)]] .
    also have "\<dots> \<longleftrightarrow> (p, q) \<in> (edges8 img)\<^sup>*"
      using post pq unfolding pass1_post_def eqv_def by blast
    finally show ?thesis .
  qed
  have 5: "lab_of result ` {p. fg img p} = {1..<nl}"
  proof -
    have "lab_of result ` {p. fg img p} = (\<lambda>p. ?f (?root p)) ` {p. fg img p}"
      by (rule image_cong) (auto simp: labfg)
    also have "\<dots> = ?f ` ?R" unfolding R by (simp add: image_image)
    finally show ?thesis using img by simp
  qed
  have 6: "(if temp \<noteq> [] then remdups_adj (sort temp) else []) = map int [1..<nat nl]"
    using tmp nl1 unfolding all 5 by (rule unique_labels)
  show ?thesis unfolding labelling_ok_def prod.case using sh nl1 3 4 5 6 by blast
qed

lemma pass1_inv_capacity:
  assumes "pass1_inv img mc (rows img, 0) (result, nl, linked)"
  shows "cap_ok img mc"
proof -
  from assms have uf: "inv_uf mc nl linked" and ic: "inv_count img (rows img, 0) nl"
    unfolding pass1_inv_def by simp_all
  have "needs_fresh img p \<Longrightarrow> earlier p (rows img, 0)" for p
    by (rule earlier_all, rule fg_in_image) (simp add: needs_fresh_def)
  then have "{p. needs_fresh img p \<and> earlier p (rows img, 0)} = {p. needs_fresh img p}"
    by blast
  then have "nl = 1 + int (card {p. needs_fresh img p})" using ic by (simp add: inv_count_def)
  moreover have "nl = 1 \<or> nl < mc" using uf by (simp add: inv_uf_def)
  ultimately show ?thesis unfolding cap_ok_def by auto
qed

lemma label_image_sat_cap:
  assumes wf: "wf_mat img" and mc: "0 \<le> mc"
  shows "res_sat (cap_err img mc) (\<lambda>out. labelling_ok img out \<and> cap_ok img mc) (label_image mc img)"
  unfolding label_image_def
proof (rule res_sat_bind[OF pass1_sat[OF wf mc]])
  fix s1 assume s1: "pass1_inv img mc (rows img, 0) s1"
  obtain result1 nl1 linked where s: "s1 = (result1, nl1, linked)" by (cases s1) auto
  have post: "pass1_post img mc result1 linked" using s1 unfolding s by (rule pass1_inv_post)
  have cap: "cap_ok img mc" using s1 unfolding s by (rule pass1_inv_capacity)
  have p2: "res_sat (cap_err img mc) (pass2_inv img result1 linked (rows img, 0))
              (pass2 mc (rows img) (cols img) linked result1)"
    using pass2_sat[OF post mc] by (rule res_sat_mono) (simp_all add: no_err_def)
  have "res_sat (cap_err img mc) (\<lambda>out. labelling_ok img out \<and> cap_ok img mc)
          (bind_res (pass2 mc (rows img) (cols img) linked result1)
             (\<lambda>(result', labels_set, next_label', temp).
                let labels = (if temp \<noteq> [] then remdups_adj (sort temp) else [])
                in Some (Inr (result', labels, next_label'))))"
  proof (rule res_sat_bind[OF p2])
    fix s2 assume s2: "pass2_inv img result1 linked (rows img, 0) s2"
    obtain result ls nl temp where t: "s2 = (result, ls, nl, temp)" by (cases s2) auto
    show "res_sat (cap_err img mc) (\<lambda>out. labelling_ok img out \<and> cap_ok img mc)
           (case s2 of (result', labels_set, next_label', temp) \<Rightarrow>
              let labels = (if temp \<noteq> [] then remdups_adj (sort temp) else [])
              in Some (Inr (result', labels, next_label')))"
      unfolding t using pass2_final[OF post s2[unfolded t]] cap by (simp add: Let_def)
  qed
  then show "res_sat (cap_err img mc) (\<lambda>out. labelling_ok img out \<and> cap_ok img mc)
     (case s1 of (result, next_label, linked) \<Rightarrow>
        bind_res (pass2 mc (rows img) (cols img) linked result)
          (\<lambda>(result', labels_set, next_label', temp).
             let labels = (if temp \<noteq> [] then remdups_adj (sort temp) else [])
             in Some (Inr (result', labels, next_label'))))"
    unfolding s by simp
qed

lemma label_image_sat:
  assumes wf: "wf_mat img" and mc: "0 \<le> mc"
  shows "res_sat (cap_err img mc) (labelling_ok img) (label_image mc img)"
  using label_image_sat_cap[OF wf mc] by (rule res_sat_mono) simp_all

subsection \<open>apply\<close>

lemma fresh_count_card: "fresh_count img = int (card {p. needs_fresh img p})"
proof -
  let ?xs = "filter (needs_fresh img) (List.product [0..<rows img] [0..<cols img])"
  have d: "distinct ?xs" by (simp add: distinct_product)
  have "set ?xs = {p. needs_fresh img p}"
    by (auto simp: needs_fresh_def fg_def in_image_def)
  then have "card {p. needs_fresh img p} = length ?xs"
    using distinct_card[OF d] by simp
  then show ?thesis by (simp add: fresh_count_def)
qed

lemma label_image_alloc: "mc < 0 \<Longrightarrow> label_image mc img = Some (Inl AllocationFailure)"
  by (simp add: label_image_def pass1_def)

lemma apply_success:
  assumes wf: "wf_mat img" and ap: "apply_cc cv cc img = Some (Inr L, cc')"
  obtains result labels nl where
    "label_image (maxComponent cc) img = Some (Inr (result, labels, nl))"
    "labelling_ok img (result, labels, nl)"
    "L = \<lparr> mtype = CV_32SC1, rows = rows img, cols = cols img, data = result \<rparr>"
    "cc' = cc\<lparr>nextLabel := nl, properties := map (component_property cv result) labels\<rparr>"
    "mtype img = CV_8UC1" "0 \<le> maxComponent cc"
proof -
  have ty: "mtype img = CV_8UC1" using ap by (auto simp: apply_cc_def split: if_splits)
  from ap ty obtain out where li: "label_image (maxComponent cc) img = Some (Inr out)"
    by (cases "label_image (maxComponent cc) img" rule: res_cases) (auto simp: apply_cc_def)
  obtain result labels nl where out: "out = (result, labels, nl)" by (cases out) auto
  have mc: "0 \<le> maxComponent cc"
  proof (rule ccontr)
    assume "\<not> 0 \<le> maxComponent cc"
    then have "label_image (maxComponent cc) img = Some (Inl AllocationFailure)"
      by (intro label_image_alloc) simp
    with li show False by simp
  qed
  have ok: "labelling_ok img (result, labels, nl)"
    using label_image_sat[OF wf mc, of] li out by simp
  show ?thesis
    using that[OF li[unfolded out] ok _ _ ty mc] ap ty li out by (simp add: apply_cc_def)
qed

lemma labelling_okD:
  assumes "labelling_ok img (result, labels, nl)"
  shows "shape_ok img result" "1 \<le> nl"
    "\<And>p. in_image img p \<Longrightarrow> fg img p \<Longrightarrow> 1 \<le> lab_of result p \<and> lab_of result p < nl"
    "\<And>p. in_image img p \<Longrightarrow> \<not> fg img p \<Longrightarrow> lab_of result p = 0"
    "\<And>p q. fg img p \<Longrightarrow> fg img q \<Longrightarrow> lab_of result p = lab_of result q \<longleftrightarrow> (p, q) \<in> (edges8 img)\<^sup>*"
    "lab_of result ` {p. fg img p} = {1..<nl}"
    "labels = map int [1..<nat nl]"
proof -
  from assms have a: "shape_ok img result" "1 \<le> nl"
    and b: "\<And>p. in_image img p \<Longrightarrow>
              (if fg img p then 1 \<le> lab_of result p \<and> lab_of result p < nl
               else lab_of result p = 0)"
    and c: "\<And>p q. fg img p \<and> fg img q \<Longrightarrow>
              (lab_of result p = lab_of result q \<longleftrightarrow> (p, q) \<in> (edges8 img)\<^sup>*)"
    and d: "lab_of result ` {p. fg img p} = {1..<nl}" "labels = map int [1..<nat nl]"
    unfolding labelling_ok_def by auto
  show "shape_ok img result" "1 \<le> nl" by fact+
  show "\<And>p. in_image img p \<Longrightarrow> fg img p \<Longrightarrow> 1 \<le> lab_of result p \<and> lab_of result p < nl"
    using b by fastforce
  show "\<And>p. in_image img p \<Longrightarrow> \<not> fg img p \<Longrightarrow> lab_of result p = 0"
    using b by fastforce
  show "\<And>p q. fg img p \<Longrightarrow> fg img q \<Longrightarrow> lab_of result p = lab_of result q \<longleftrightarrow> (p, q) \<in> (edges8 img)\<^sup>*"
    using c by simp
  show "lab_of result ` {p. fg img p} = {1..<nl}" "labels = map int [1..<nat nl]" by fact+
qed

lemma pixel_label_mat [simp]:
  "pixel \<lparr> mtype = t, rows = r, cols = c, data = result \<rparr> p = lab_of result p"
  by (simp add: pixel_def lab_of_def)

lemma card_components:
  assumes eq: "\<And>p q. fg img p \<Longrightarrow> fg img q \<Longrightarrow> lab p = lab q \<longleftrightarrow> connected8 img p q"
  shows "card (components img) = card (lab ` {p. fg img p})"
proof -
  let ?g = "\<lambda>l. {q. fg img q \<and> lab q = l}"
  have comp: "{q. connected8 img p q} = ?g (lab p)" if "fg img p" for p
  proof -
    have "connected8 img p q \<longleftrightarrow> fg img q \<and> lab q = lab p" for q
      using eq[OF that, of q] by (auto simp: connected8_def)
    then show ?thesis by blast
  qed
  have "components img = ?g ` (lab ` {p. fg img p})"
    unfolding components_def image_image by (rule image_cong) (auto simp: comp)
  moreover have "inj_on ?g (lab ` {p. fg img p})"
  proof (rule inj_onI)
    fix l l' assume l: "l \<in> lab ` {p. fg img p}" and "l' \<in> lab ` {p. fg img p}" and g: "?g l = ?g l'"
    from l obtain p where "fg img p" "lab p = l" by auto
    then have "p \<in> ?g l" by simp
    then have "p \<in> ?g l'" using g by simp
    then show "l = l'" using \<open>lab p = l\<close> by simp
  qed
  ultimately show ?thesis by (simp add: card_image)
qed

lemma countNonZero_blob: "countNonZero (blob_of result l) = int (count_list (concat result) l)"
proof -
  let ?f = "\<lambda>v. if v = l then 255 else (0 :: 8 word)"
  have c: "concat (blob_of result l) = map ?f (concat result)"
    by (simp add: blob_of_def map_concat)
  have "length (filter (\<lambda>v. v \<noteq> 0) (map ?f xs)) = count_list xs l" for xs :: "int list"
    by (induction xs) auto
  then show ?thesis unfolding countNonZero_def c by simp
qed

lemma area_component_property [simp]:
  "area (component_property cv result l) = int (count_list (concat result) l)"
  by (simp add: component_property_def Let_def countNonZero_blob)

lemma sum_indicator_distinct:
  "distinct ls \<Longrightarrow> (\<Sum>l\<leftarrow>ls. if x = l then 1 else 0) = (if x \<in> set ls then 1 else (0::int))"
  by (induction ls) auto

lemma sum_count_distinct:
  assumes "distinct ls"
  shows "(\<Sum>l\<leftarrow>ls. int (count_list xs l)) = int (length (filter (\<lambda>v. v \<in> set ls) xs))"
proof (induction xs)
  case Nil
  then show ?case by simp
next
  case (Cons x xs)
  have "(\<Sum>l\<leftarrow>ls. int (count_list (x # xs) l))
        = (\<Sum>l\<leftarrow>ls. int (count_list xs l) + (if x = l then 1 else 0))"
    by (rule arg_cong[where f = sum_list], rule map_cong) auto
  also have "\<dots> = (\<Sum>l\<leftarrow>ls. int (count_list xs l)) + (\<Sum>l\<leftarrow>ls. if x = l then 1 else 0)"
    by (rule sum_list_addf)
  finally show ?case using Cons.IH sum_indicator_distinct[OF assms, of x] by simp
qed

lemma length_filter_map_eq:
  assumes "map P xs = map Q ys"
  shows "length (filter P xs) = length (filter Q ys)"
proof -
  have "length (filter P xs) = length (filter id (map P xs))" for P and xs :: "'c list"
    by (induction xs) auto
  then show ?thesis using assms by metis
qed

lemma two_dim_filter_cong:
  assumes len: "length xss = length yss"
    and row: "\<And>i. i < length xss \<Longrightarrow> length (xss ! i) = length (yss ! i)"
    and px: "\<And>i j. i < length xss \<Longrightarrow> j < length (xss ! i) \<Longrightarrow> P (xss ! i ! j) = Q (yss ! i ! j)"
  shows "length (filter P (concat xss)) = length (filter Q (concat yss))"
proof -
  have "map (map P) xss = map (map Q) yss"
  proof (rule nth_equalityI)
    show "length (map (map P) xss) = length (map (map Q) yss)" using len by simp
    fix i assume "i < length (map (map P) xss)"
    then have i: "i < length xss" "i < length yss" using len by auto
    have "map P (xss ! i) = map Q (yss ! i)"
      by (rule nth_equalityI) (use row[OF i(1)] px[OF i(1)] in auto)
    then show "map (map P) xss ! i = map (map Q) yss ! i" using i by simp
  qed
  then have "map P (concat xss) = map Q (concat yss)"
    by (simp add: map_concat)
  then show ?thesis by (rule length_filter_map_eq)
qed

lemma labelled_count:
  assumes wf: "wf_mat img" and ok: "labelling_ok img (result, labels, nl)"
  shows "int (length (filter (\<lambda>v. v \<in> set labels) (concat result))) = countNonZero (data img)"
proof -
  note D = labelling_okD[OF ok]
  have sl: "set labels = {1..<nl}" unfolding D(7) using D(2) by (rule set_int_upt)
  have len: "length result = rows img" "length (data img) = rows img"
    using D(1) wf by (simp_all add: shape_ok_def wf_mat_def)
  have rl: "length (result ! i) = cols img" "length (data img ! i) = cols img" if "i < rows img" for i
    using D(1) wf_mat_nth[OF wf] that by (simp_all add: shape_ok_def)
  have px: "(result ! i ! j \<in> set labels) = (data img ! i ! j \<noteq> 0)"
    if i: "i < length result" and j: "j < length (result ! i)" for i j
  proof -
    have ii: "in_image img (i, j)" using i j len rl by (simp add: in_image_def)
    show ?thesis
    proof (cases "fg img (i, j)")
      case True
      then show ?thesis using D(3)[OF ii True] sl by (simp add: fg_def lab_of_def pixel_def)
    next
      case False
      then show ?thesis using D(4)[OF ii False] sl ii by (simp add: fg_def lab_of_def pixel_def)
    qed
  qed
  have "length (filter (\<lambda>v. v \<in> set labels) (concat result))
        = length (filter (\<lambda>v. v \<noteq> 0) (concat (data img)))"
    by (rule two_dim_filter_cong) (use len rl px in auto)
  then show ?thesis by (simp add: countNonZero_def)
qed

lemma apply_outcome:
  assumes wf: "wf_mat img" and ty: "mtype img = CV_8UC1" and mc: "0 \<le> maxComponent cc"
  shows "if 0 < fresh_count img \<and> maxComponent cc \<le> fresh_count img + 1
         then apply_cc cv cc img =
                Some (Inl (LabelCapacityExceeded (max 2 (maxComponent cc)) (maxComponent cc)),
                      cc\<lparr>nextLabel := max 2 (maxComponent cc)\<rparr>)
         else (\<exists>L cc'. apply_cc cv cc img = Some (Inr L, cc'))"
proof -
  let ?mc = "maxComponent cc"
  have sat: "res_sat (cap_err img ?mc) (\<lambda>out. labelling_ok img out \<and> cap_ok img ?mc)
               (label_image ?mc img)"
    using wf mc by (rule label_image_sat_cap)
  show ?thesis
  proof (cases "label_image ?mc img" rule: res_cases)
    case Diverge
    then show ?thesis using sat by simp
  next
    case (Err e)
    then have "cap_err img ?mc e" using sat by simp
    then have e: "e = LabelCapacityExceeded (max 2 ?mc) ?mc" and le: "max 2 ?mc \<le> 1 + fresh_count img"
      unfolding cap_err_def fresh_count_card by auto
    have "0 < fresh_count img \<and> ?mc \<le> fresh_count img + 1" using le by auto
    then show ?thesis using Err e ty by (simp add: apply_cc_def)
  next
    case (Ok out)
    then have "cap_ok img ?mc" using sat by simp
    then have "\<not> (0 < fresh_count img \<and> ?mc \<le> fresh_count img + 1)"
      unfolding cap_ok_def fresh_count_card by auto
    then show ?thesis using Ok ty by (cases out) (simp add: apply_cc_def)
  qed
qed

lemma apply_total:
  assumes wf: "wf_mat img"
  shows "\<exists>out cc'. apply_cc cv cc img = Some (out, cc') \<and> out \<noteq> Inl OutOfBounds"
proof (cases "mtype img = CV_8UC1")
  case False
  then show ?thesis by (simp add: apply_cc_def)
next
  case ty: True
  show ?thesis
  proof (cases "0 \<le> maxComponent cc")
    case False
    then have "label_image (maxComponent cc) img = Some (Inl AllocationFailure)"
      by (intro label_image_alloc) simp
    then show ?thesis using ty by (simp add: apply_cc_def)
  next
    case True
    from apply_outcome[OF wf ty True, of cv] show ?thesis
      by (auto split: if_splits)
  qed
qed

lemma pass1_reach_chase:
  assumes wf: "wf_mat img" and re: "pass1_reach img mc c (result, nl, linked)"
    and l: "1 \<le> l" "l < nl"
  shows "chase linked l = Some (Inr (root_of linked l))"
    "vec_get linked (root_of linked l) = Inr 0" "acyclic_parent linked"
proof -
  have inv: "pass1_inv img mc c (result, nl, linked)" using wf re by (rule pass1_reach_inv)
  then have uf: "inv_uf mc nl linked" by (simp add: pass1_inv_def)
  show ac: "acyclic_parent linked" using uf by (simp add: inv_uf_def)
  have r: "in_range linked l" using uf l by (rule inv_uf_in_range)
  show "chase linked l = Some (Inr (root_of linked l))" using ac r by (rule chase_root_of)
  have "in_range linked (root_of linked l)" "linked ! nat (root_of linked l) = 0"
    using root_of_props[OF ac r] by auto
  then show "vec_get linked (root_of linked l) = Inr 0"
    by (simp add: vec_get_def in_range_def)
qed

lemma pass1_reach_min_union:
  assumes wf: "wf_mat img" and re: "pass1_reach img mc c (result, nl, linked)"
    and p: "fg img p" "earlier p c" and n: "n \<in> prior_nbrs img p"
  shows "lab_of result p = Min (lab_of result ` prior_nbrs img p)"
    "root_of linked (lab_of result p) = root_of linked (lab_of result n)"
    "1 \<le> lab_of result p \<and> lab_of result p < nl" "1 \<le> lab_of result n \<and> lab_of result n < nl"
proof -
  have inv: "pass1_inv img mc c (result, nl, linked)" using wf re by (rule pass1_reach_inv)
  then have il: "inv_labels img c result nl" and ic: "inv_conn img c result linked"
    and im: "inv_min img c result"
    by (simp_all add: pass1_inv_def)
  have ne: "prior_nbrs img p \<noteq> {}" using n by auto
  show "lab_of result p = Min (lab_of result ` prior_nbrs img p)"
    using im p ne unfolding inv_min_def by blast
  have nf: "fg img n" "adj8 p n" "earlier n p" using n by (simp_all add: prior_nbrs_iff)
  have en: "earlier n c" using nf(3) p(2) by (rule earlier_trans)
  have "(p, n) \<in> edges_upto img c"
    using p nf en by (simp add: edges_upto_def edges8_def)
  then have "(p, n) \<in> (edges_upto img c)\<^sup>*" by (rule r_into_rtrancl)
  then have "eqv linked (lab_of result p) (lab_of result n)"
    using inv_connD[OF ic p(1,2) nf(1) en] by simp
  then show "root_of linked (lab_of result p) = root_of linked (lab_of result n)"
    by (simp add: eqv_def)
  show "1 \<le> lab_of result p \<and> lab_of result p < nl"
    by (rule inv_labels_earlier(2)[OF il fg_in_image[OF p(1)] p(2) p(1)])
  show "1 \<le> lab_of result n \<and> lab_of result n < nl"
    by (rule inv_labels_earlier(2)[OF il fg_in_image[OF nf(1)] en nf(1)])
qed

section \<open>Examples\<close>

lemma example_wf: "wf_mat example_image"
  by (simp add: wf_mat_def example_image_def)

lemma example_label_image:
  "label_image 10 example_image = Some (Inr ([[1, 0, 1], [0, 1, 0]], [1], 2))"
  by code_simp

lemma example_apply:
  "apply_cc zero_moments example_cc example_image = Some (Inr example_labels, example_cc')"
proof -
  have "maxComponent example_cc = 10" "mtype example_image = CV_8UC1"
    by (simp_all add: example_cc_def example_image_def)
  then show ?thesis
    unfolding apply_cc_def
    by (simp add: example_label_image)
       (simp add: example_image_def example_labels_def example_cc_def example_cc'_def
          component_property_def blob_of_def countNonZero_def zero_moments_def
          calculateBlobEccentricity_def calculateBlobCentroid_def fdiv_def
          eig_val_1_def Let_def)
qed

lemma example_pass1:
  "pass1 10 (rows example_image) (cols example_image) (map (map uint) (data example_image))
   = Some (Inr ([[1, 0, 2], [0, 1, 0]], 3, [0, 2, 0, 0, 0, 0, 0, 0, 0, 0]))"
  by code_simp

lemma example_pass1_reach:
  "pass1_reach example_image 10 (2, 0) ([[1, 0, 2], [0, 1, 0]], 3, [0, 2, 0, 0, 0, 0, 0, 0, 0, 0])"
  using pass1_final_reach[OF example_wf example_pass1] by (simp add: example_image_def)

section \<open>Claims\<close>

text \<open>
  C1: when \<open>apply\<close> succeeds on a well-formed single-channel 8-bit image, two foreground
  pixels carry the same final label in the returned label image exactly when they lie in
  the same 8-connected component of the foreground mask.
\<close>

theorem apply_labels_components:
  assumes "wf_mat img" and "apply_cc cv_moments cc img = Some (Inr L, cc')"
  shows "\<forall>p q. fg img p \<and> fg img q \<longrightarrow> (pixel L p = pixel L q \<longleftrightarrow> connected8 img p q)"
proof (intro allI impI, elim conjE)
  fix p q assume pq: "fg img p" "fg img q"
  from assms obtain result labels nl where ok: "labelling_ok img (result, labels, nl)"
    and L: "L = \<lparr> mtype = CV_32SC1, rows = rows img, cols = cols img, data = result \<rparr>"
    by (rule apply_success)
  show "pixel L p = pixel L q \<longleftrightarrow> connected8 img p q"
    unfolding L pixel_label_mat connected8_def using labelling_okD(5)[OF ok pq] pq by simp
qed

theorem apply_labels_components_witness:
  "wf_mat example_image
   \<and> apply_cc zero_moments example_cc example_image = Some (Inr example_labels, example_cc')
   \<and> fg example_image (0, 0) \<and> fg example_image (0, 2)
   \<and> pixel example_labels (0, 0) = pixel example_labels (0, 2)
   \<and> connected8 example_image (0, 0) (0, 2)"
proof -
  have f: "fg example_image (0, 0)" "fg example_image (0, 2)"
    by (simp_all add: fg_def in_image_def pixel_def example_image_def)
  have e: "pixel example_labels (0, 0) = pixel example_labels (0, 2)"
    by (simp add: pixel_def example_labels_def)
  from apply_labels_components[OF example_wf example_apply] f e
  have "connected8 example_image (0, 0) (0, 2)" by blast
  then show ?thesis using example_wf example_apply f e by simp
qed

text \<open>
  C2: when \<open>apply\<close> succeeds on a well-formed image, the positive values that occur in the
  returned label image are exactly 1, ..., N, where N is the number of 8-connected
  components of the foreground, and every background pixel of the input is 0 in the output.
\<close>

theorem apply_labels_dense:
  assumes "wf_mat img" and "apply_cc cv_moments cc img = Some (Inr L, cc')"
  shows "{v \<in> pixel L ` {p. in_image img p}. 0 < v} = {1..int (card (components img))}
       \<and> (\<forall>p. in_image img p \<and> pixel img p = 0 \<longrightarrow> pixel L p = 0)"
proof -
  from assms obtain result labels nl where ok: "labelling_ok img (result, labels, nl)"
    and L: "L = \<lparr> mtype = CV_32SC1, rows = rows img, cols = cols img, data = result \<rparr>"
    by (rule apply_success)
  note D = labelling_okD[OF ok]
  have pos: "{v \<in> lab_of result ` {p. in_image img p}. 0 < v} = lab_of result ` {p. fg img p}"
  proof (rule set_eqI)
    fix v show "v \<in> {v \<in> lab_of result ` {p. in_image img p}. 0 < v} \<longleftrightarrow> v \<in> lab_of result ` {p. fg img p}"
    proof
      assume "v \<in> {v \<in> lab_of result ` {p. in_image img p}. 0 < v}"
      then obtain p where p: "in_image img p" "v = lab_of result p" "0 < v" by auto
      then have "fg img p" using D(4)[OF p(1)] by auto
      then show "v \<in> lab_of result ` {p. fg img p}" using p(2) by blast
    next
      assume "v \<in> lab_of result ` {p. fg img p}"
      then obtain p where p: "fg img p" "v = lab_of result p" by auto
      then have "in_image img p" "0 < v" using D(3)[OF fg_in_image[OF p(1)] p(1)] fg_in_image by auto
      then show "v \<in> {v \<in> lab_of result ` {p. in_image img p}. 0 < v}" using p(2) by blast
    qed
  qed
  have "card (components img) = card (lab_of result ` {p. fg img p})"
    by (rule card_components) (use D(5) in \<open>simp add: connected8_def\<close>)
  then have "int (card (components img)) = nl - 1" using D(6) D(2) by simp
  then have 1: "{v \<in> pixel L ` {p. in_image img p}. 0 < v} = {1..int (card (components img))}"
    unfolding L pixel_label_mat[abs_def] using pos D(6) by (simp add: pixel_label_mat[abs_def]) auto
  have 2: "\<forall>p. in_image img p \<and> pixel img p = 0 \<longrightarrow> pixel L p = 0"
    unfolding L pixel_label_mat using D(4) by (simp add: fg_def)
  show ?thesis using 1 2 by simp
qed

theorem apply_labels_dense_witness:
  "wf_mat example_image
   \<and> apply_cc zero_moments example_cc example_image = Some (Inr example_labels, example_cc')
   \<and> {v \<in> pixel example_labels ` {p. in_image example_image p}. 0 < v}
       = {1..int (card (components example_image))}
   \<and> in_image example_image (0, 1) \<and> pixel example_image (0, 1) = 0
   \<and> pixel example_labels (0, 1) = 0"
proof -
  have b: "in_image example_image (0, 1)" "pixel example_image (0, 1) = 0"
    by (simp_all add: in_image_def pixel_def example_image_def)
  from apply_labels_dense[OF example_wf example_apply] b
  have "{v \<in> pixel example_labels ` {p. in_image example_image p}. 0 < v}
       = {1..int (card (components example_image))}" "pixel example_labels (0, 1) = 0"
    by blast+
  then show ?thesis using example_wf example_apply b by simp
qed

text \<open>
  C3, as the code has it: \<open>disjointUnion\<close> chases both arguments to their roots and, when
  the roots differ, makes the larger root the parent of the smaller one. Every entry of
  the parent vector stays 0 or points to a larger label, and the root of a chain is at
  least as large as every label on it: the labels whose root was one of the two roots now
  have the larger of the two as root, all others keep theirs.
\<close>

theorem disjointUnion_links_to_larger_root:
  assumes "acyclic_parent parent" and "in_range parent a" and "in_range parent b"
  shows "\<exists>ra rb parent'.
      chase parent a = Some (Inr ra) \<and> chase parent b = Some (Inr rb)
      \<and> disjointUnion a b parent = Some (Inr parent')
      \<and> parent' = (if ra = rb then parent else parent[nat (min ra rb) := max ra rb])
      \<and> acyclic_parent parent'
      \<and> (\<forall>l. in_range parent l \<longrightarrow>
            (\<exists>r. chase parent l = Some (Inr r)
               \<and> chase parent' l = Some (Inr (if r = ra \<or> r = rb then max ra rb else r))
               \<and> l \<le> (if r = ra \<or> r = rb then max ra rb else r)))"
proof -
  let ?ra = "root_of parent a" and ?rb = "root_of parent b"
  let ?p' = "uf_union parent a b"
  have ac': "acyclic_parent ?p'" using assms by (rule acyclic_uf_union)
  have "\<exists>r. chase parent l = Some (Inr r)
            \<and> chase ?p' l = Some (Inr (if r = ?ra \<or> r = ?rb then max ?ra ?rb else r))
            \<and> l \<le> (if r = ?ra \<or> r = ?rb then max ?ra ?rb else r)" if l: "in_range parent l" for l
  proof -
    have l': "in_range ?p' l" using l by simp
    have "l \<le> root_of ?p' l" using ac' l' by (rule root_of_ge)
    then show ?thesis
      using chase_root_of[OF assms(1) l] chase_root_of[OF ac' l']
      unfolding root_of_uf_union[OF assms l] by simp
  qed
  moreover have "?p' = (if ?ra = ?rb then parent else parent[nat (min ?ra ?rb) := max ?ra ?rb])"
    by (simp add: uf_union_def Let_def)
  ultimately show ?thesis
    using chase_root_of[OF assms(1,2)] chase_root_of[OF assms(1,3)]
      disjointUnion_uf_union[OF assms] ac' by metis
qed

theorem disjointUnion_links_to_larger_root_witness:
  "acyclic_parent [0, 0, 0, 0] \<and> in_range [0, 0, 0, 0] 1 \<and> in_range [0, 0, 0, 0] 2
   \<and> (\<exists>ra rb parent'.
      chase [0, 0, 0, 0] 1 = Some (Inr ra) \<and> chase [0, 0, 0, 0] 2 = Some (Inr rb)
      \<and> disjointUnion 1 2 [0, 0, 0, 0] = Some (Inr parent')
      \<and> parent' = (if ra = rb then [0, 0, 0, 0] else [0, 0, 0, 0][nat (min ra rb) := max ra rb])
      \<and> acyclic_parent parent')"
proof -
  have h: "acyclic_parent [0, 0, 0, 0]" "in_range [0, 0, 0, 0] 1" "in_range [0, 0, 0, 0] 2"
    by (simp_all add: acyclic_parent_def in_range_def nth_Cons split: nat.splits)
  from disjointUnion_links_to_larger_root[OF h] show ?thesis using h by blast
qed

theorem disjointUnion_direction_counterexample:
  "disjointUnion 1 2 [0, 0, 0, 0] = Some (Inr [0, 2, 0, 0])
   \<and> [0, 2, 0, 0 :: int] ! 1 > 0 \<and> \<not> [0, 2, 0, 0 :: int] ! 1 < 1
   \<and> chase [0, 2, 0, 0] 1 = Some (Inr 2)"
  by code_simp




text \<open>
  C5: an image that is not single-channel 8-bit is rejected at once with the precondition
  error: \<open>apply\<close> returns no label image and leaves the object, its property records
  included, exactly as it was.
\<close>

theorem apply_rejects_wrong_type:
  "mtype img \<noteq> CV_8UC1 \<Longrightarrow> apply_cc cv_moments cc img = Some (Inl PreconditionViolation, cc)"
  by (simp add: apply_cc_def)

theorem apply_rejects_wrong_type_witness:
  "apply_cc zero_moments
     \<lparr> maxComponent = 10, nextLabel = 7,
       properties = [\<lparr> labelID = 1, area = 4, eccentricity = None, centroid = (None, None) \<rparr>] \<rparr>
     \<lparr> mtype = CV_OtherType 16, rows = 1, cols = 3, data = [[1, 2, 3]] \<rparr>
   = Some (Inl PreconditionViolation,
       \<lparr> maxComponent = 10, nextLabel = 7,
         properties = [\<lparr> labelID = 1, area = 4, eccentricity = None, centroid = (None, None) \<rparr>] \<rparr>)"
  using apply_rejects_wrong_type
    [of "\<lparr> mtype = CV_OtherType 16, rows = 1, cols = 3, data = [[1, 2, 3]] \<rparr>"]
  by simp

text \<open>
  C6: when \<open>apply\<close> succeeds on a well-formed image, the areas of the property records add
  up to the number of nonzero pixels of the input image.
\<close>

theorem area_sum_is_foreground_count:
  assumes "wf_mat img" and "apply_cc cv_moments cc img = Some (Inr L, cc')"
  shows "sum_list (map area (properties cc')) = countNonZero (data img)"
proof -
  from assms obtain result labels nl where ok: "labelling_ok img (result, labels, nl)"
    and cc': "cc' = cc\<lparr>nextLabel := nl, properties := map (component_property cv_moments result) labels\<rparr>"
    by (rule apply_success)
  have d: "distinct labels"
    unfolding labelling_okD(7)[OF ok] by (simp add: distinct_map inj_on_def)
  have "sum_list (map area (properties cc')) = (\<Sum>l\<leftarrow>labels. int (count_list (concat result) l))"
    unfolding cc' by (simp add: comp_def)
  also have "\<dots> = int (length (filter (\<lambda>v. v \<in> set labels) (concat result)))"
    using d by (rule sum_count_distinct)
  also have "\<dots> = countNonZero (data img)"
    using assms(1) ok by (rule labelled_count)
  finally show ?thesis .
qed

theorem area_sum_is_foreground_count_witness:
  "wf_mat example_image
   \<and> apply_cc zero_moments example_cc example_image = Some (Inr example_labels, example_cc')
   \<and> sum_list (map area (properties example_cc')) = 3
   \<and> countNonZero (data example_image) = 3"
proof -
  have "countNonZero (data example_image) = 3"
    by (simp add: countNonZero_def example_image_def)
  then show ?thesis
    using area_sum_is_foreground_count[OF example_wf example_apply] example_wf example_apply
    by simp
qed

text \<open>
  C7: the state that pass 1 of \<open>apply\<close> returns, \<open>pass1\<close> run on the image as
  \<open>label_image\<close> runs it. In that state every foreground pixel \<open>p\<close> that has a foreground
  neighbour \<open>n\<close> visited before it (up, up-left, up-right or left, inside the image) carries
  a provisional label handed out by the pass (from 1 to \<open>nextLabel - 1\<close>) that is the
  minimum of the labels of those neighbours, and its label and the label of \<open>n\<close> have the
  same root in the disjoint set.
\<close>

theorem pass1_assigns_min_and_unions:
  assumes "wf_mat img"
    and "pass1 mc (rows img) (cols img) (map (map uint) (data img)) = Some (Inr (result, nl, linked))"
    and "fg img p" and "n \<in> prior_nbrs img p"
  shows "1 \<le> lab_of result p \<and> lab_of result p < nl
       \<and> lab_of result p = Min (lab_of result ` prior_nbrs img p)
       \<and> (\<exists>r. chase linked (lab_of result p) = Some (Inr r)
              \<and> chase linked (lab_of result n) = Some (Inr r))"
proof -
  have re: "pass1_reach img mc (rows img, 0) (result, nl, linked)"
    using assms(1,2) by (rule pass1_final_reach)
  have e: "earlier p (rows img, 0)"
    using assms(3) by (intro earlier_all fg_in_image)
  note M = pass1_reach_min_union[OF assms(1) re assms(3) e assms(4)]
  have "chase linked (lab_of result p) = Some (Inr (root_of linked (lab_of result p)))"
    using pass1_reach_chase(1)[OF assms(1) re] M(3) by simp
  moreover have "chase linked (lab_of result n) = Some (Inr (root_of linked (lab_of result p)))"
    using pass1_reach_chase(1)[OF assms(1) re] M(4) M(2) by simp
  ultimately show ?thesis using M(1) M(3) by simp
qed

theorem pass1_assigns_min_and_unions_witness:
  "wf_mat example_image
   \<and> pass1 10 (rows example_image) (cols example_image) (map (map uint) (data example_image))
       = Some (Inr ([[1, 0, 2], [0, 1, 0]], 3, [0, 2, 0, 0, 0, 0, 0, 0, 0, 0]))
   \<and> fg example_image (1, 1) \<and> (0, 2) \<in> prior_nbrs example_image (1, 1)
   \<and> (1 \<le> lab_of [[1, 0, 2], [0, 1, 0]] (1, 1) \<and> lab_of [[1, 0, 2], [0, 1, 0]] (1, 1) < 3
       \<and> lab_of [[1, 0, 2], [0, 1, 0]] (1, 1)
           = Min (lab_of [[1, 0, 2], [0, 1, 0]] ` prior_nbrs example_image (1, 1))
       \<and> (\<exists>r. chase [0, 2, 0, 0, 0, 0, 0, 0, 0, 0] (lab_of [[1, 0, 2], [0, 1, 0]] (1, 1)) = Some (Inr r)
              \<and> chase [0, 2, 0, 0, 0, 0, 0, 0, 0, 0] (lab_of [[1, 0, 2], [0, 1, 0]] (0, 2)) = Some (Inr r)))"
proof -
  have h: "fg example_image (1, 1)" "(0, 2) \<in> prior_nbrs example_image (1, 1)"
    by (simp_all add: prior_nbrs_def prior_positions_def fg_def in_image_def pixel_def
          earlier_def example_image_def)
  note c = pass1_assigns_min_and_unions[OF example_wf example_pass1 h]
  show ?thesis
    by (intro conjI example_wf example_pass1 h c)
qed

text \<open>
  C8: \<open>apply\<close> does not depend on what the object held before. If a call succeeds, a
  second call on the resulting object and the same image returns the same label image and
  leaves the same object (the same property records), and so does a call on the first
  object with any other \<open>nextLabel\<close> and any other stored property records.
\<close>

theorem apply_twice_same:
  assumes "apply_cc cv_moments cc img = Some (Inr L, cc')"
  shows "apply_cc cv_moments cc' img = Some (Inr L, cc')
       \<and> apply_cc cv_moments (cc\<lparr>nextLabel := k, properties := ps\<rparr>) img = Some (Inr L, cc')"
proof -
  have ty: "mtype img = CV_8UC1" using assms by (auto simp: apply_cc_def split: if_splits)
  from assms ty obtain out where li: "label_image (maxComponent cc) img = Some (Inr out)"
    by (cases "label_image (maxComponent cc) img" rule: res_cases) (auto simp: apply_cc_def)
  obtain result labels nl where out: "out = (result, labels, nl)" by (cases out) auto
  have L: "L = \<lparr> mtype = CV_32SC1, rows = rows img, cols = cols img, data = result \<rparr>"
    and cc': "cc' = cc\<lparr>nextLabel := nl, properties := map (component_property cv_moments result) labels\<rparr>"
    using assms ty li out by (simp_all add: apply_cc_def)
  show ?thesis using ty li out by (simp add: apply_cc_def L cc')
qed

theorem apply_twice_same_witness:
  "apply_cc zero_moments example_cc example_image = Some (Inr example_labels, example_cc')
   \<and> apply_cc zero_moments example_cc' example_image = Some (Inr example_labels, example_cc')"
  using apply_twice_same[OF example_apply] example_apply by simp

text \<open>
  C9: in every state of pass 1 (\<open>pass1_reach\<close>) each entry of the parent vector is 0 or
  points to a larger label inside the vector, so the chase from any provisional label
  assigned so far (1, ..., \<open>nextLabel - 1\<close>) ends at a root, an entry that is 0. So every
  loop of \<open>apply\<close> ends: on a well-formed image \<open>apply\<close> returns a value or throws one of
  its exceptions, and never indexes a vector out of bounds.
\<close>

theorem parent_chains_terminate:
  assumes "wf_mat img" and "pass1_reach img mc c (result, nl, linked)"
  shows "acyclic_parent linked
       \<and> (\<forall>l. 1 \<le> l \<and> l < nl \<longrightarrow> (\<exists>r. chase linked l = Some (Inr r) \<and> vec_get linked r = Inr 0))
       \<and> (\<exists>out cc'. apply_cc cv_moments cc img = Some (out, cc') \<and> out \<noteq> Inl OutOfBounds)"
proof -
  have 1: "acyclic_parent linked"
    using pass1_reach_inv[OF assms] by (simp add: pass1_inv_def inv_uf_def)
  have 2: "\<exists>r. chase linked l = Some (Inr r) \<and> vec_get linked r = Inr 0" if "1 \<le> l" "l < nl" for l
    using pass1_reach_chase(1,2)[OF assms that] by blast
  show ?thesis using 1 2 apply_total[OF assms(1)] by blast
qed

theorem parent_chains_terminate_witness:
  "wf_mat example_image
   \<and> pass1_reach example_image 10 (2, 0) ([[1, 0, 2], [0, 1, 0]], 3, [0, 2, 0, 0, 0, 0, 0, 0, 0, 0])
   \<and> acyclic_parent [0, 2, 0, 0, 0, 0, 0, 0, 0, 0]
   \<and> (\<exists>r. chase [0, 2, 0, 0, 0, 0, 0, 0, 0, 0] 1 = Some (Inr r)
          \<and> vec_get [0, 2, 0, 0, 0, 0, 0, 0, 0, 0] r = Inr 0)
   \<and> (\<exists>out cc'. apply_cc zero_moments example_cc example_image = Some (out, cc')
          \<and> out \<noteq> Inl OutOfBounds)"
proof -
  from parent_chains_terminate[OF example_wf example_pass1_reach, of zero_moments example_cc]
  have "acyclic_parent [0, 2, 0, 0, 0, 0, 0, 0, 0, 0]"
    and "\<forall>l. 1 \<le> l \<and> l < 3 \<longrightarrow> (\<exists>r. chase [0, 2, 0, 0, 0, 0, 0, 0, 0, 0] l = Some (Inr r)
          \<and> vec_get [0, 2, 0, 0, 0, 0, 0, 0, 0, 0] r = Inr 0)"
    and t: "\<exists>out cc'. apply_cc zero_moments example_cc example_image = Some (out, cc')
          \<and> out \<noteq> Inl OutOfBounds"
    by blast+
  then have "acyclic_parent [0, 2, 0, 0, 0, 0, 0, 0, 0, 0]"
    and "\<exists>r. chase [0, 2, 0, 0, 0, 0, 0, 0, 0, 0] 1 = Some (Inr r)
          \<and> vec_get [0, 2, 0, 0, 0, 0, 0, 0, 0, 0] r = Inr 0"
    by simp_all
  then show ?thesis using example_wf example_pass1_reach t by simp
qed

text \<open>
  C10: the image with one foreground pixel is a valid input on which \<open>apply\<close> succeeds with
  one property record. If the moments of its one-pixel mask have \<open>nu20\<close>, \<open>nu11\<close> and
  \<open>nu02\<close> all zero, then \<open>eig_val_1\<close> is zero and \<open>calculateBlobEccentricity\<close> divides
  by it: nothing guards the division, and the eccentricity of the record is not a number.
\<close>

theorem eccentricity_divides_by_zero:
  assumes "nu20 (cv_moments [[255]]) = 0" and "nu11 (cv_moments [[255]]) = 0"
    and "nu02 (cv_moments [[255]]) = 0"
  shows "\<exists>L cc'. apply_cc cv_moments \<lparr> maxComponent = 3, nextLabel = 1, properties = [] \<rparr>
                    single_pixel_image = Some (Inr L, cc')
           \<and> blob_of (data L) 1 = [[255]]
           \<and> eig_val_1 (cv_moments (blob_of (data L) 1)) = 0
           \<and> fdiv (eig_val_2 (cv_moments (blob_of (data L) 1))) (eig_val_1 (cv_moments (blob_of (data L) 1))) = None
           \<and> map eccentricity (properties cc') = [None]"
proof -
  have l: "label_image 3 single_pixel_image = Some (Inr ([[1]], [1], 2))" by code_simp
  have b: "blob_of [[1]] 1 = [[255]]" by (simp add: blob_of_def)
  have e: "eig_val_1 (cv_moments [[255]]) = 0" using assms by (simp add: eig_val_1_def)
  have "mtype single_pixel_image = CV_8UC1" by (simp add: single_pixel_image_def)
  then show ?thesis using l b e
    by (simp add: apply_cc_def component_property_def calculateBlobEccentricity_def fdiv_def Let_def)
qed

theorem eccentricity_divides_by_zero_witness:
  "nu20 (zero_moments [[255]]) = 0 \<and> nu11 (zero_moments [[255]]) = 0 \<and> nu02 (zero_moments [[255]]) = 0
   \<and> (\<exists>L cc'. apply_cc zero_moments \<lparr> maxComponent = 3, nextLabel = 1, properties = [] \<rparr>
                    single_pixel_image = Some (Inr L, cc')
           \<and> blob_of (data L) 1 = [[255]]
           \<and> eig_val_1 (zero_moments (blob_of (data L) 1)) = 0
           \<and> fdiv (eig_val_2 (zero_moments (blob_of (data L) 1))) (eig_val_1 (zero_moments (blob_of (data L) 1))) = None
           \<and> map eccentricity (properties cc') = [None])"
proof -
  have z: "nu20 (zero_moments [[255]]) = 0" "nu11 (zero_moments [[255]]) = 0"
    "nu02 (zero_moments [[255]]) = 0"
    by (simp_all add: zero_moments_def)
  note c = eccentricity_divides_by_zero[of zero_moments, OF z]
  show ?thesis by (intro conjI z c)
qed

end
